theory Spec2Isabelle
  imports Main "HOL-Library.Word"
begin

section \<open>Time values of the Go standard library\<close>

text \<open>
  A \<open>time.Time\<close> is modelled as an instant, counted in nanoseconds on one time line; a
  \<open>time.Duration\<close> is a signed 64-bit count of nanoseconds, kept here as an \<open>int\<close>
  inside the range \<open>minDuration .. maxDuration\<close>.
\<close>

type_synonym Time = int
type_synonym Duration = int

definition maxDuration :: Duration where
  "maxDuration = 2 ^ 63 - 1"

definition minDuration :: Duration where
  "minDuration = - (2 ^ 63)"

definition Sub :: "Time \<Rightarrow> Time \<Rightarrow> Duration" where
  \<comment> \<open>\<open>t.Sub(u)\<close>: the difference, saturated where it does not fit a Duration.\<close>
  "Sub t u =
     (if t - u < minDuration then minDuration
      else if maxDuration < t - u then maxDuration
      else t - u)"

definition Milliseconds :: "Duration \<Rightarrow> int" where
  \<comment> \<open>\<open>int64(d) / 1e6\<close>: Go's integer division truncates towards zero.\<close>
  "Milliseconds d = (if d < 0 then - ((- d) div 1000000) else d div 1000000)"

subsection \<open>\<open>Duration.String\<close>\<close>

definition digit_char :: "nat \<Rightarrow> char" where
  \<comment> \<open>\<open>byte(d) + '0'\<close>\<close>
  "digit_char d = char_of (48 + d)"

fun fmtInt :: "nat \<Rightarrow> string" where
  "fmtInt v = (if v < 10 then [digit_char v] else fmtInt (v div 10) @ [digit_char (v mod 10)])"

declare fmtInt.simps [simp del]

fun fmtFrac :: "nat \<Rightarrow> nat \<Rightarrow> bool \<Rightarrow> string \<Rightarrow> string \<times> nat" where
  \<comment> \<open>the loop over \<open>prec\<close> digits, written right to left; trailing zeros are omitted\<close>
  "fmtFrac 0 v pr buf = (if pr then CHR ''.'' # buf else buf, v)"
| "fmtFrac (Suc i) v pr buf =
     (let digit = v mod 10; pr' = (pr \<or> digit \<noteq> 0)
      in fmtFrac i (v div 10) pr' (if pr' then digit_char digit # buf else buf))"

definition Duration_String :: "Duration \<Rightarrow> string" where
  "Duration_String d =
     (let u = nat \<bar>d\<bar>;
          body =
            (if u < 1000000000 then
               (if u = 0 then ''0s''
                else if u < 1000 then
                  (case fmtFrac 0 u False ''ns'' of (buf, v) \<Rightarrow> fmtInt v @ buf)
                else if u < 1000000 then
                  (case fmtFrac 3 u False [char_of (194::nat), char_of (181::nat), CHR ''s''] of
                     (buf, v) \<Rightarrow> fmtInt v @ buf)
                else
                  (case fmtFrac 6 u False ''ms'' of (buf, v) \<Rightarrow> fmtInt v @ buf))
             else
               (case fmtFrac 9 u False ''s'' of
                  (buf, secs) \<Rightarrow>
                    (let s = fmtInt (secs mod 60) @ buf; mins = secs div 60
                     in if mins > 0 then
                          (let m = fmtInt (mins mod 60) @ CHR ''m'' # s; hours = mins div 60
                           in if hours > 0 then fmtInt hours @ CHR ''h'' # m else m)
                        else s)))
      in if d < 0 then CHR ''-'' # body else body)"

section \<open>The task entity\<close>

type_synonym TaskStatus = string

definition StatusPending :: TaskStatus where "StatusPending = ''pending''"
definition StatusProcessing :: TaskStatus where "StatusProcessing = ''processing''"
definition StatusCompleted :: TaskStatus where "StatusCompleted = ''completed''"
definition StatusFailed :: TaskStatus where "StatusFailed = ''failed''"

record Task =
  ID :: string
  Title :: string
  Description :: string
  Status :: TaskStatus
  CreatedAt :: Time
  StartedAt :: "Time option"
  CompletedAt :: "Time option"
  DurationStr :: string
  Result :: string
  Error :: string

definition Duration :: "Task \<Rightarrow> Time \<Rightarrow> int" where
  \<comment> \<open>\<open>now\<close> is the reading of \<open>time.Now()\<close>. The result is the whole number of milliseconds
      that the returned float64 holds: it is below \<open>2 ^ 53\<close> in absolute value, so the
      conversion is exact.\<close>
  "Duration t now =
     (case StartedAt t of
        None \<Rightarrow> 0
      | Some started \<Rightarrow>
          (let endTime = (case CompletedAt t of Some c \<Rightarrow> c | None \<Rightarrow> now)
           in Milliseconds (Sub endTime started)))"

definition UpdateStatus :: "TaskStatus \<Rightarrow> Time \<Rightarrow> Task \<Rightarrow> Task" where
  "UpdateStatus status now t =
     (let t1 = t\<lparr>Status := status\<rparr>;
          t2 = (if status = StatusProcessing then t1\<lparr>StartedAt := Some now\<rparr>
                else if status = StatusCompleted \<or> status = StatusFailed
                  then t1\<lparr>CompletedAt := Some now\<rparr>
                else t1)
      in case StartedAt t2 of
           None \<Rightarrow> t2
         | Some started \<Rightarrow>
             (let endTime = (case CompletedAt t2 of Some c \<Rightarrow> c | None \<Rightarrow> now)
              in t2\<lparr>DurationStr := Duration_String (Sub endTime started)\<rparr>))"

section \<open>Errors\<close>

text \<open>
  The sentinel errors of the repository and the service, the two errors of a done context,
  the errors of \<open>strconv\<close> (a \<open>NumError\<close> around \<open>ErrSyntax\<close> or \<open>ErrRange\<close>), and
  \<open>errors.Wrap\<close> of \<open>github.com/pkg/errors\<close>, which keeps the wrapped error as its cause.
\<close>

datatype error =
    ErrTaskNotFound
  | ErrInvalidTaskID
  | ErrSyntax
  | ErrRange
  | Canceled
  | DeadlineExceeded
  | NumError string string error
  | Wrap error string

fun errors_Is :: "error \<Rightarrow> error \<Rightarrow> bool" where
  \<comment> \<open>\<open>errors.Is\<close>: the error or one of the errors it wraps is the target\<close>
  "errors_Is (Wrap e msg) target = (Wrap e msg = target \<or> errors_Is e target)"
| "errors_Is (NumError f n e) target = (NumError f n e = target \<or> errors_Is e target)"
| "errors_Is e target = (e = target)"

section \<open>Decimal conversions of \<open>strconv\<close>\<close>

definition maxUint64 :: nat where
  "maxUint64 = 2 ^ 64 - 1"

fun formatBits :: "nat \<Rightarrow> string" where
  \<comment> \<open>the decimal digits of an unsigned value, most significant first\<close>
  "formatBits u =
     (if u < 10 then [digit_char u] else formatBits (u div 10) @ [digit_char (u mod 10)])"

declare formatBits.simps [simp del]

definition FormatUint :: "64 word \<Rightarrow> string" where
  "FormatUint i = formatBits (unat i)"

definition FormatInt :: "64 word \<Rightarrow> string" where
  \<comment> \<open>\<open>strconv.FormatInt(i, 10)\<close> of an int64, read from the word by \<open>sint\<close>\<close>
  "FormatInt i =
     (if sint i < 0 then CHR ''-'' # formatBits (nat (- sint i)) else formatBits (nat (sint i)))"

fun ParseUint_loop :: "string \<Rightarrow> string \<Rightarrow> nat \<Rightarrow> nat \<times> error option" where
  \<comment> \<open>the loop of \<open>strconv.ParseUint(s, 10, 64)\<close> over the bytes of \<open>s\<close>; \<open>s0\<close> is the
      whole input, \<open>n\<close> the value read so far. A letter is a digit of value 10 or more,
      which base 10 refuses like any other byte.\<close>
  "ParseUint_loop s0 [] n = (n, None)"
| "ParseUint_loop s0 (c # cs) n =
     (if (48::nat) \<le> of_char c \<and> of_char c \<le> (57::nat) then
        (let d = of_char c - (48::nat) in
         if n \<ge> maxUint64 div 10 + 1 then (maxUint64, Some (NumError ''ParseUint'' s0 ErrRange))
         else if n * 10 + d > maxUint64 then (maxUint64, Some (NumError ''ParseUint'' s0 ErrRange))
         else ParseUint_loop s0 cs (n * 10 + d))
      else (0, Some (NumError ''ParseUint'' s0 ErrSyntax)))"

definition ParseUint :: "string \<Rightarrow> nat \<times> error option" where
  "ParseUint s =
     (if s = [] then (0, Some (NumError ''ParseUint'' s ErrSyntax)) else ParseUint_loop s s 0)"

definition ParseInt :: "string \<Rightarrow> 64 word \<times> error option" where
  \<comment> \<open>\<open>strconv.ParseInt(s, 10, 64)\<close>\<close>
  "ParseInt s0 =
     (case s0 of
        [] \<Rightarrow> (0, Some (NumError ''ParseInt'' s0 ErrSyntax))
      | c # cs \<Rightarrow>
          (let neg = (c = CHR ''-'');
               s = (if c = CHR ''+'' \<or> c = CHR ''-'' then cs else s0)
           in case ParseUint s of
                (un, Some (NumError f num ErrSyntax)) \<Rightarrow> (0, Some (NumError ''ParseInt'' s0 ErrSyntax))
              | (un, _) \<Rightarrow>
                  if \<not> neg \<and> un \<ge> 2 ^ 63 then (word_of_int (2 ^ 63 - 1), Some (NumError ''ParseInt'' s0 ErrRange))
                  else if neg \<and> un > 2 ^ 63 then (word_of_int (- (2 ^ 63)), Some (NumError ''ParseInt'' s0 ErrRange))
                  else (if neg then - word_of_nat un else word_of_nat un, None)))"

section \<open>The in-memory repository\<close>

text \<open>
  Tasks are shared by pointer between the repository, the queue and the workers: a
  \<open>*model.Task\<close> is an address, and the heap gives the task object at each address.
  \<open>top\<close> is the first address that no allocation has handed out yet.
\<close>

type_synonym addr = nat

record heap =
  objs :: "addr \<Rightarrow> Task"
  top :: addr

record InMemoryTaskRepository =
  tasks :: "string \<rightharpoonup> addr"
  nextID :: "64 word"

definition NewTaskRepository :: InMemoryTaskRepository where
  "NewTaskRepository = \<lparr>tasks = Map.empty, nextID = 1\<rparr>"

definition getNextID :: "InMemoryTaskRepository \<Rightarrow> string \<times> InMemoryTaskRepository" where
  "getNextID r = (FormatInt (nextID r), r\<lparr>nextID := nextID r + 1\<rparr>)"

definition Repository_CreateTask ::
  "addr \<Rightarrow> heap \<times> InMemoryTaskRepository \<Rightarrow> (addr \<times> error option) \<times> heap \<times> InMemoryTaskRepository"
where
  "Repository_CreateTask task hr =
     (case hr of (h, r) \<Rightarrow>
        (case getNextID r of (newid, r1) \<Rightarrow>
           (let h' = h\<lparr>objs := (objs h)(task := (objs h task)\<lparr>ID := newid\<rparr>)\<rparr>;
                r' = r1\<lparr>tasks := (tasks r1)(newid \<mapsto> task)\<rparr>
            in ((task, None), h', r'))))"

definition Repository_GetTask :: "string \<Rightarrow> InMemoryTaskRepository \<Rightarrow> error + addr" where
  "Repository_GetTask tid r =
     (case tasks r tid of None \<Rightarrow> Inl ErrTaskNotFound | Some task \<Rightarrow> Inr task)"

definition Repository_UpdateTask ::
  "addr \<Rightarrow> heap \<times> InMemoryTaskRepository \<Rightarrow> (error + addr) \<times> heap \<times> InMemoryTaskRepository"
where
  "Repository_UpdateTask task hr =
     (case hr of (h, r) \<Rightarrow>
        (case tasks r (ID (objs h task)) of
           None \<Rightarrow> (Inl ErrTaskNotFound, h, r)
         | Some _ \<Rightarrow> (Inr task, h, r\<lparr>tasks := (tasks r)(ID (objs h task) \<mapsto> task)\<rparr>)))"

definition Repository_DeleteTask ::
  "string \<Rightarrow> InMemoryTaskRepository \<Rightarrow> error option \<times> InMemoryTaskRepository"
where
  "Repository_DeleteTask tid r =
     (case tasks r tid of
        None \<Rightarrow> (Some ErrTaskNotFound, r)
      | Some _ \<Rightarrow> (None, r\<lparr>tasks := (tasks r)(tid := None)\<rparr>))"

subsection \<open>Sequences of store operations\<close>

text \<open>
  A run of \<open>CreateTask\<close> and \<open>DeleteTask\<close> calls on one repository; \<open>apply_ops\<close> gives the
  ids that the creations assigned, in the order of the calls. \<open>id_less\<close> compares two ids
  as the numbers that \<open>strconv.ParseInt\<close> reads from them.
\<close>

datatype store_op = OpCreate addr | OpDelete string

fun apply_ops ::
  "store_op list \<Rightarrow> heap \<times> InMemoryTaskRepository \<Rightarrow> string list \<times> heap \<times> InMemoryTaskRepository"
where
  "apply_ops [] hr = ([], hr)"
| "apply_ops (OpCreate task # ops) hr =
     (case Repository_CreateTask task hr of
        ((t, _), h', r') \<Rightarrow>
          (case apply_ops ops (h', r') of (ids, hr'') \<Rightarrow> (ID (objs h' t) # ids, hr'')))"
| "apply_ops (OpDelete tid # ops) hr =
     (case hr of (h, r) \<Rightarrow> apply_ops ops (h, snd (Repository_DeleteTask tid r)))"

fun creates :: "store_op list \<Rightarrow> nat" where
  "creates [] = 0"
| "creates (OpCreate task # ops) = Suc (creates ops)"
| "creates (OpDelete tid # ops) = creates ops"

definition id_less :: "string \<Rightarrow> string \<Rightarrow> bool" where
  "id_less a b =
     (case ParseInt a of
        (m, None) \<Rightarrow> (case ParseInt b of (n, None) \<Rightarrow> sint m < sint n | _ \<Rightarrow> False)
      | _ \<Rightarrow> False)"

text \<open>A task and a heap to run the operations on.\<close>

definition example_task :: Task where
  "example_task =
     \<lparr>ID = ''0'', Title = ''T'', Description = ''D'', Status = StatusPending, CreatedAt = 1,
      StartedAt = None, CompletedAt = None, DurationStr = [], Result = [], Error = []\<rparr>"

definition example_heap :: heap where
  "example_heap = \<lparr>objs = (\<lambda>_. example_task), top = 2\<rparr>"

section \<open>The task service and its workers\<close>

text \<open>
  The state of the running program: the heap of task objects, the counter of the model
  package, and the fields of the \<open>TaskService\<close>. The buffered channel \<open>taskQueue\<close> is the
  list of the values it holds, oldest first, together with \<open>sendq\<close>, the values of the
  goroutines blocked in a send on the full channel. A closed \<open>shutdownChan\<close> and a
  cancelled service context are flags. Each worker goroutine is at one place of its loop.
\<close>

definition generateTaskID :: "64 word \<Rightarrow> string \<times> 64 word" where
  \<comment> \<open>\<open>atomic.AddUint64(&taskCounter, 1)\<close> gives the new value of the counter\<close>
  "generateTaskID c = (FormatUint (c + 1), c + 1)"

definition NewTask :: "string \<Rightarrow> string \<Rightarrow> Time \<Rightarrow> heap \<times> 64 word \<Rightarrow> addr \<times> heap \<times> 64 word" where
  "NewTask title description now hc =
     (case hc of (h, c) \<Rightarrow>
        (case generateTaskID c of (tid, c') \<Rightarrow>
           (let task = top h
            in (task,
                h\<lparr>objs := (objs h)(task :=
                     \<lparr>ID = tid, Title = title, Description = description,
                      Status = StatusPending, CreatedAt = now, StartedAt = None,
                      CompletedAt = None, DurationStr = [], Result = [], Error = []\<rparr>),
                  top := task + 1\<rparr>,
                c'))))"

datatype wstate =
    Outer              \<comment> \<open>at the outer select, the top of an iteration\<close>
  | Inner              \<comment> \<open>the outer select took its default; at the inner select\<close>
  | Dequeued addr      \<comment> \<open>received a task; step 2 comes next\<close>
  | Delay addr         \<comment> \<open>step 2 persisted; at the select of the simulated delay\<close>
  | Completing addr    \<comment> \<open>the delay is over; step 4 comes next\<close>
  | Stopped            \<comment> \<open>the goroutine has returned\<close>

text \<open>
  Where several cases of a select can proceed, Go chooses one of them at random: the
  \<open>pick\<close> is that choice. It matters only between cases that can proceed.
\<close>

datatype pick = PickStop | PickQueue | PickTimer | PickSend

record CreateTaskRequest =
  reqTitle :: string
  reqDescription :: string

record system =
  mem :: heap
  taskCounter :: "64 word"
  repo :: InMemoryTaskRepository
  processingDelay :: Duration
  workerCount :: int
  taskQueue :: "addr option list"
  sendq :: "addr option list"
  ctxDone :: bool
  shutdownChan :: bool
  workers :: "wstate list"

definition queueCap :: nat where
  "queueCap = 100"

definition NewTaskService :: "InMemoryTaskRepository \<Rightarrow> heap \<Rightarrow> 64 word \<Rightarrow> system" where
  \<comment> \<open>the defaults of the constructor; \<open>startWorkers\<close> starts \<open>workerCount\<close> goroutines\<close>
  "NewTaskService r h c =
     \<lparr>mem = h, taskCounter = c, repo = r, processingDelay = 2 * 60 * 1000000000,
      workerCount = 5, taskQueue = [], sendq = [], ctxDone = False, shutdownChan = False,
      workers = replicate 5 Outer\<rparr>"

definition SetProcessingDelay :: "Duration \<Rightarrow> system \<Rightarrow> system" where
  "SetProcessingDelay delay s = s\<lparr>processingDelay := delay\<rparr>"

definition SetWorkerCount :: "int \<Rightarrow> system \<Rightarrow> system" where
  "SetWorkerCount count s = s\<lparr>workerCount := (if count < 1 then 1 else count)\<rparr>"

datatype call_result =
    Returned "addr option" "error option"
  | BlockedInSend      \<comment> \<open>the caller waits in the fallback send for room in the queue\<close>

definition TaskService_CreateTask ::
  "error option \<Rightarrow> pick \<Rightarrow> CreateTaskRequest \<Rightarrow> Time \<Rightarrow> system \<Rightarrow> call_result \<times> system"
where
  \<comment> \<open>\<open>ctx\<close> is \<open>ctx.Err()\<close> of the caller's context: \<open>None\<close> while it is not done\<close>
  "TaskService_CreateTask ctx pk req now s =
     (case NewTask (reqTitle req) (reqDescription req) now (mem s, taskCounter s) of
        (task0, h1, c1) \<Rightarrow>
          (case Repository_CreateTask task0 (h1, repo s) of
             ((task, err), h2, r2) \<Rightarrow>
               (let s1 = s\<lparr>mem := h2, taskCounter := c1, repo := r2\<rparr>
                in case err of
                     Some e \<Rightarrow> (Returned None (Some (Wrap e ''create task'')), s1)
                   | None \<Rightarrow>
                       if length (taskQueue s1) < queueCap \<and> (ctx = None \<or> pk \<noteq> PickStop)
                       then (Returned (Some task) None,
                             s1\<lparr>taskQueue := taskQueue s1 @ [Some task]\<rparr>)
                       else (case ctx of
                               Some cerr \<Rightarrow>
                                 (Returned None (Some (Wrap cerr ''task queue is full'')), s1)
                             | None \<Rightarrow>
                                 (BlockedInSend, s1\<lparr>sendq := sendq s1 @ [Some task]\<rparr>)))))"

definition TaskService_GetTask :: "string \<Rightarrow> system \<Rightarrow> error + addr" where
  "TaskService_GetTask tid s =
     (case ParseInt tid of
        (_, Some _) \<Rightarrow> Inl ErrInvalidTaskID
      | (_, None) \<Rightarrow>
          (case Repository_GetTask tid (repo s) of
             Inl err \<Rightarrow> Inl (Wrap err ''get task'')
           | Inr task \<Rightarrow> Inr task))"

definition TaskService_DeleteTask :: "string \<Rightarrow> system \<Rightarrow> error option \<times> system" where
  "TaskService_DeleteTask tid s =
     (case ParseInt tid of
        (_, Some _) \<Rightarrow> (Some ErrInvalidTaskID, s)
      | (_, None) \<Rightarrow>
          (case Repository_DeleteTask tid (repo s) of
             (Some err, r') \<Rightarrow> (Some (Wrap err ''delete task''), s\<lparr>repo := r'\<rparr>)
           | (None, r') \<Rightarrow> (None, s\<lparr>repo := r'\<rparr>)))"

definition TaskService_Shutdown :: "system \<Rightarrow> system option" where
  \<comment> \<open>\<open>close(s.shutdownChan)\<close>; closing a closed channel panics (\<open>None\<close>). The wait for the
      workers that follows changes no state.\<close>
  "TaskService_Shutdown s = (if shutdownChan s then None else Some (s\<lparr>shutdownChan := True\<rparr>))"

definition setWorker :: "nat \<Rightarrow> wstate \<Rightarrow> system \<Rightarrow> system" where
  "setWorker i w s = s\<lparr>workers := (workers s)[i := w]\<rparr>"

definition stopReady :: "system \<Rightarrow> bool" where
  \<comment> \<open>\<open><-ctx.Done()\<close> or \<open><-s.shutdownChan\<close> can proceed\<close>
  "stopReady s = (ctxDone s \<or> shutdownChan s)"

definition step2 :: "addr \<Rightarrow> Time \<Rightarrow> nat \<Rightarrow> system \<Rightarrow> system" where
  \<comment> \<open>\<open>task.UpdateStatus(model.StatusProcessing)\<close>, then \<open>UpdateTask\<close>; on an error the
      worker goes on with its next iteration\<close>
  "step2 task now i s =
     (let h1 = (mem s)\<lparr>objs := (objs (mem s))(task :=
                  UpdateStatus StatusProcessing now (objs (mem s) task))\<rparr>
      in case Repository_UpdateTask task (h1, repo s) of
           (Inl err, h2, r2) \<Rightarrow> setWorker i Outer (s\<lparr>mem := h2, repo := r2\<rparr>)
         | (Inr _, h2, r2) \<Rightarrow> setWorker i (Delay task) (s\<lparr>mem := h2, repo := r2\<rparr>))"

definition step4 :: "addr \<Rightarrow> Time \<Rightarrow> nat \<Rightarrow> system \<Rightarrow> system" where
  \<comment> \<open>\<open>task.UpdateStatus(model.StatusCompleted)\<close>, the result string, then \<open>UpdateTask\<close>;
      with or without an error the worker goes on with its next iteration\<close>
  "step4 task now i s =
     (let t1 = UpdateStatus StatusCompleted now (objs (mem s) task);
          t2 = t1\<lparr>Result := ''Task completed successfully''\<rparr>;
          h1 = (mem s)\<lparr>objs := (objs (mem s))(task := t2)\<rparr>
      in case Repository_UpdateTask task (h1, repo s) of
           (_, h2, r2) \<Rightarrow> setWorker i Outer (s\<lparr>mem := h2, repo := r2\<rparr>))"

definition worker_step :: "pick \<Rightarrow> Time \<Rightarrow> nat \<Rightarrow> system \<Rightarrow> system" where
  \<comment> \<open>one move of worker \<open>i\<close> in the loop of \<open>startWorkers\<close>; a worker that can not move
      (blocked in a select, or returned) leaves the state as it is\<close>
  "worker_step pk now i s =
     (if i < length (workers s) then
        (case workers s ! i of
           Outer \<Rightarrow> if stopReady s then setWorker i Stopped s else setWorker i Inner s
         | Inner \<Rightarrow>
             (case taskQueue s of
                x # q \<Rightarrow>
                  if \<not> stopReady s \<or> pk = PickQueue then
                    (let s1 = s\<lparr>taskQueue := q @ take 1 (sendq s), sendq := drop 1 (sendq s)\<rparr>
                     in case x of
                          None \<Rightarrow> setWorker i Outer s1
                        | Some task \<Rightarrow> setWorker i (Dequeued task) s1)
                  else setWorker i Stopped s
              | [] \<Rightarrow> if stopReady s then setWorker i Stopped s else s)
         | Dequeued task \<Rightarrow> step2 task now i s
         | Delay task \<Rightarrow>
             if pk = PickTimer then setWorker i (Completing task) s
             else if stopReady s then setWorker i Stopped s
             else s
         | Completing task \<Rightarrow> step4 task now i s
         | Stopped \<Rightarrow> s)
      else s)"

datatype event =
    Worker nat pick Time
  | Create "error option" pick CreateTaskRequest Time
  | Delete string
  | Shutdown
  | Cancel

fun exec :: "event \<Rightarrow> system \<Rightarrow> system option" where
  "exec (Worker i pk now) s = Some (worker_step pk now i s)"
| "exec (Create ctx pk req now) s = Some (snd (TaskService_CreateTask ctx pk req now s))"
| "exec (Delete tid) s = Some (snd (TaskService_DeleteTask tid s))"
| "exec Shutdown s = TaskService_Shutdown s"
| "exec Cancel s = Some (s\<lparr>ctxDone := True\<rparr>)"

fun run :: "event list \<Rightarrow> system \<Rightarrow> system option" where
  "run [] s = Some s"
| "run (e # es) s = (case exec e s of None \<Rightarrow> None | Some s' \<Rightarrow> run es s')"

fun holds :: "wstate \<Rightarrow> addr \<Rightarrow> bool" where
  \<comment> \<open>the worker has the task in hand\<close>
  "holds (Dequeued b) a = (a = b)"
| "holds (Delay b) a = (a = b)"
| "holds (Completing b) a = (a = b)"
| "holds _ a = False"

definition in_flight :: "addr \<Rightarrow> system \<Rightarrow> bool" where
  \<comment> \<open>the task is in the queue, waits to be sent to it, or is in the hands of a worker\<close>
  "in_flight a s =
     (Some a \<in> set (taskQueue s) \<or> Some a \<in> set (sendq s) \<or> (\<exists>w \<in> set (workers s). holds w a))"

subsection \<open>Invariants of the running service\<close>

text \<open>
  \<open>created\<close> is the state after the first half of \<open>CreateTask\<close>: the new task object is
  allocated and stored in the repository. \<open>wf\<close> says that every task in flight has been
  allocated; \<open>started_inv\<close> that a task in the delay or at step 4 has its start time.
\<close>

definition new_task_object :: "system \<Rightarrow> CreateTaskRequest \<Rightarrow> Time \<Rightarrow> Task" where
  "new_task_object s req now =
     \<lparr>ID = FormatInt (nextID (repo s)), Title = reqTitle req, Description = reqDescription req,
      Status = StatusPending, CreatedAt = now, StartedAt = None, CompletedAt = None,
      DurationStr = [], Result = [], Error = []\<rparr>"

definition created :: "CreateTaskRequest \<Rightarrow> Time \<Rightarrow> system \<Rightarrow> system" where
  "created req now s =
     s\<lparr>mem := \<lparr>objs = (objs (mem s))(top (mem s) := new_task_object s req now),
                top = Suc (top (mem s))\<rparr>,
       taskCounter := taskCounter s + 1,
       repo := (repo s)\<lparr>tasks := (tasks (repo s))(FormatInt (nextID (repo s)) \<mapsto> top (mem s)),
                        nextID := nextID (repo s) + 1\<rparr>\<rparr>"

definition wf :: "system \<Rightarrow> bool" where
  "wf s = (\<forall>a. in_flight a s \<longrightarrow> a < top (mem s))"

definition started_inv :: "system \<Rightarrow> bool" where
  "started_inv s =
     (\<forall>w \<in> set (workers s). \<forall>a. w = Delay a \<or> w = Completing a \<longrightarrow>
        StartedAt (objs (mem s) a) \<noteq> None)"

subsection \<open>A service to run, and what is seen of it\<close>

definition observe :: "nat \<Rightarrow> addr \<Rightarrow> system \<Rightarrow> bool \<times> wstate \<times> TaskStatus" where
  "observe i a s = (stopReady s, workers s ! i, Status (objs (mem s) a))"

definition observe_task :: "string \<Rightarrow> addr \<Rightarrow> system \<Rightarrow> TaskStatus \<times> string \<times> (error + addr)" where
  "observe_task tid a s =
     (Status (objs (mem s) a), Result (objs (mem s) a), TaskService_GetTask tid s)"

definition example_request :: CreateTaskRequest where
  "example_request = \<lparr>reqTitle = ''T'', reqDescription = ''D''\<rparr>"

definition example_service :: system where
  "example_service = NewTaskService NewTaskRepository example_heap 0"

definition example_completing :: system where
  "example_completing =
     the (run [Create None PickSend example_request 10, Worker 0 PickQueue 11,
               Worker 0 PickQueue 12, Worker 0 PickQueue 13, Worker 0 PickTimer 14]
            example_service)"

definition example_stopping :: system where
  "example_stopping = example_service\<lparr>shutdownChan := True\<rparr>"

definition example_delaying :: system where
  "example_delaying =
     the (run [Create None PickSend example_request 10, Worker 0 PickQueue 11,
               Worker 0 PickQueue 12, Worker 0 PickQueue 13, Shutdown]
            example_service)"

definition example_dequeued :: system where
  "example_dequeued =
     the (run [Create None PickSend example_request 1, Worker 0 PickQueue 2, Shutdown,
               Worker 0 PickQueue 3]
            example_service)"

text \<open>
  With a stop signal delivered, a worker at one of these places returns without passing
  the inner select again: the places of the loop other than the inner select and the
  moment between the receive and step 2.
\<close>

fun no_dequeue_ahead :: "wstate \<Rightarrow> bool" where
  "no_dequeue_ahead Inner = False"
| "no_dequeue_ahead (Dequeued a) = False"
| "no_dequeue_ahead _ = True"

section \<open>Properties of the task entity\<close>

lemmas Status_defs = StatusPending_def StatusProcessing_def StatusCompleted_def StatusFailed_def

lemma Sub_bounds: "minDuration \<le> Sub t u \<and> Sub t u \<le> maxDuration"
  by (simp add: Sub_def minDuration_def maxDuration_def)

lemma Milliseconds_nonneg: "0 \<le> d \<Longrightarrow> 0 \<le> Milliseconds d"
  by (simp add: Milliseconds_def)

lemma Milliseconds_abs: "\<bar>Milliseconds d\<bar> = \<bar>d\<bar> div 1000000"
  by (simp add: Milliseconds_def)

lemma Duration_float64_exact: "\<bar>Duration t now\<bar> < 2 ^ 53"
proof (cases "StartedAt t")
  case None
  then show ?thesis by (simp add: Duration_def)
next
  case (Some started)
  define e where "e = (case CompletedAt t of Some c \<Rightarrow> c | None \<Rightarrow> now)"
  have d: "Duration t now = Milliseconds (Sub e started)"
    using Some by (simp add: Duration_def e_def)
  have "\<bar>Sub e started\<bar> \<le> 2 ^ 63"
    using Sub_bounds [of e started] unfolding minDuration_def maxDuration_def by linarith
  then have "\<bar>Sub e started\<bar> div 1000000 \<le> 2 ^ 63 div 1000000"
    by (rule zdiv_mono1) simp
  then show ?thesis
    by (simp add: d Milliseconds_abs)
qed

text \<open>
  C1, as amended. \<open>UpdateStatus\<close> with \<open>StatusProcessing\<close> stores the current time in
  \<open>started_at\<close> on every call, whatever the field held before: the code has no guard that
  keeps an earlier start time.
\<close>

theorem UpdateStatus_Processing_sets_StartedAt:
  "StartedAt (UpdateStatus StatusProcessing now t) = Some now
   \<and> Status (UpdateStatus StatusProcessing now t) = StatusProcessing
   \<and> CompletedAt (UpdateStatus StatusProcessing now t) = CompletedAt t"
  by (simp add: UpdateStatus_def Let_def)

text \<open>
  C1, as stated, fails: a task that started at time 5 and is moved to Processing again at
  time 9 has its start time reset to 9.
\<close>

theorem UpdateStatus_Processing_resets_StartedAt:
  "StartedAt (UpdateStatus StatusProcessing 9
     \<lparr>ID = ''1'', Title = ''T'', Description = ''D'', Status = StatusProcessing,
      CreatedAt = 1, StartedAt = Some 5, CompletedAt = None, DurationStr = ''0s'',
      Result = [], Error = []\<rparr>) = Some 9
   \<and> Some (9::int) \<noteq> Some 5"
  by (simp add: UpdateStatus_def Let_def)

text \<open>
  C5. \<open>Duration\<close> is zero without \<open>started_at\<close>. With \<open>started_at\<close> and \<open>completed_at\<close>
  both set it is the whole milliseconds of \<open>completed_at.Sub(started_at)\<close>, the same at
  every time of reading, never negative when \<open>completed_at\<close> is not earlier than
  \<open>started_at\<close>, and equal to the plain difference divided by \<open>10^6\<close> when that difference
  fits a Duration.
\<close>

theorem Duration_frozen_at_completion:
  "(StartedAt t = None \<longrightarrow> Duration t now = 0)
   \<and> (StartedAt t = Some s \<and> CompletedAt t = Some c \<longrightarrow>
        Duration t now = Milliseconds (Sub c s)
        \<and> Duration t now' = Duration t now
        \<and> (s \<le> c \<longrightarrow> 0 \<le> Duration t now)
        \<and> (s \<le> c \<and> c - s \<le> maxDuration \<longrightarrow> Duration t now = (c - s) div 1000000))"
proof -
  have nonneg: "0 \<le> Sub c s" if "s \<le> c"
    using that by (simp add: Sub_def minDuration_def maxDuration_def)
  have plain: "Milliseconds (Sub c s) = (c - s) div 1000000" if "s \<le> c" "c - s \<le> maxDuration"
    using that by (simp add: Sub_def Milliseconds_def minDuration_def maxDuration_def)
  show ?thesis
    using nonneg plain by (auto simp: Duration_def Let_def Milliseconds_nonneg)
qed

theorem Duration_frozen_at_completion_witness:
  "Duration \<lparr>ID = ''1'', Title = ''T'', Description = ''D'', Status = StatusCompleted,
      CreatedAt = 1, StartedAt = Some 2000000, CompletedAt = Some 7500000,
      DurationStr = ''5.5ms'', Result = ''Task completed successfully'', Error = []\<rparr> 99 = 5
   \<and> Duration \<lparr>ID = ''2'', Title = ''T'', Description = ''D'', Status = StatusPending,
      CreatedAt = 1, StartedAt = None, CompletedAt = None,
      DurationStr = [], Result = [], Error = []\<rparr> 99 = 0"
  using Duration_frozen_at_completion
    [of "\<lparr>ID = ''1'', Title = ''T'', Description = ''D'', Status = StatusCompleted,
      CreatedAt = 1, StartedAt = Some 2000000, CompletedAt = Some 7500000,
      DurationStr = ''5.5ms'', Result = ''Task completed successfully'', Error = []\<rparr>"
      99 2000000 7500000 99]
    Duration_frozen_at_completion
    [of "\<lparr>ID = ''2'', Title = ''T'', Description = ''D'', Status = StatusPending,
      CreatedAt = 1, StartedAt = None, CompletedAt = None,
      DurationStr = [], Result = [], Error = []\<rparr>" 99 0 0 99]
  by (simp add: maxDuration_def)

section \<open>Properties of the decimal conversions\<close>

lemma digit_char_numerals:
  "digit_char 0 = CHR ''0''" "digit_char (Suc 0) = CHR ''1''" "digit_char 2 = CHR ''2''"
  "digit_char 3 = CHR ''3''" "digit_char 4 = CHR ''4''" "digit_char 5 = CHR ''5''"
  "digit_char 6 = CHR ''6''" "digit_char 7 = CHR ''7''" "digit_char 8 = CHR ''8''"
  "digit_char 9 = CHR ''9''"
  by (simp_all add: digit_char_def char_of_def bit_0)

lemma of_char_digit_char: "d < 10 \<Longrightarrow> of_char (digit_char d) = 48 + d"
  by (simp add: digit_char_def of_char_of)

lemma digit_char_not_sign:
  assumes "d < 10"
  shows "digit_char d \<noteq> CHR ''-''" and "digit_char d \<noteq> CHR ''+''"
proof -
  have "(of_char (digit_char d) :: nat) \<noteq> of_char CHR ''-''"
    using assms by (simp add: of_char_digit_char)
  then show "digit_char d \<noteq> CHR ''-''" by auto
  have "(of_char (digit_char d) :: nat) \<noteq> of_char CHR ''+''"
    using assms by (simp add: of_char_digit_char)
  then show "digit_char d \<noteq> CHR ''+''" by auto
qed

lemma ParseUint_loop_append:
  "ParseUint_loop s0 (xs @ ys) n =
     (case ParseUint_loop s0 xs n of
        (m, None) \<Rightarrow> ParseUint_loop s0 ys m
      | (m, Some e) \<Rightarrow> (m, Some e))"
  by (induction xs arbitrary: n) (simp_all add: Let_def)

lemma ParseUint_loop_digit:
  assumes "d < 10" "n * 10 + d \<le> maxUint64"
  shows "ParseUint_loop s0 [digit_char d] n = (n * 10 + d, None)"
proof -
  have "n < maxUint64 div 10 + 1"
    using assms by (simp add: maxUint64_def)
  then show ?thesis
    using assms by (simp add: of_char_digit_char Let_def)
qed

lemma ParseUint_loop_formatBits:
  "u \<le> maxUint64 \<Longrightarrow> ParseUint_loop s0 (formatBits u) 0 = (u, None)"
proof (induction u rule: formatBits.induct)
  case (1 u)
  show ?case
  proof (cases "u < 10")
    case True
    then show ?thesis
      using "1.prems" ParseUint_loop_digit [of u 0 s0] by (simp add: formatBits.simps [of u])
  next
    case False
    have le: "u div 10 \<le> maxUint64" using "1.prems" by simp
    have ih: "ParseUint_loop s0 (formatBits (u div 10)) 0 = (u div 10, None)"
      using "1.IH" [OF False le] .
    have "ParseUint_loop s0 [digit_char (u mod 10)] (u div 10) = (u div 10 * 10 + u mod 10, None)"
      by (rule ParseUint_loop_digit) (use "1.prems" in simp_all)
    then show ?thesis
      using False ih by (simp add: formatBits.simps [of u] ParseUint_loop_append)
  qed
qed

lemma formatBits_hd:
  "\<exists>d cs. d < 10 \<and> formatBits u = digit_char d # cs"
proof (induction u rule: formatBits.induct)
  case (1 u)
  show ?case
  proof (cases "u < 10")
    case True
    then show ?thesis by (auto simp: formatBits.simps [of u])
  next
    case False
    then obtain d cs where "d < 10" "formatBits (u div 10) = digit_char d # cs"
      using "1.IH" by blast
    then show ?thesis using False by (auto simp: formatBits.simps [of u])
  qed
qed

lemma ParseUint_formatBits: "u \<le> maxUint64 \<Longrightarrow> ParseUint (formatBits u) = (u, None)"
  using formatBits_hd [of u] by (auto simp: ParseUint_def ParseUint_loop_formatBits)

lemma ParseInt_FormatInt: "ParseInt (FormatInt i) = (i, None)"
proof (cases "sint i < 0")
  case False
  define u where "u = nat (sint i)"
  have ub: "u < 2 ^ 63"
    using sint_lt [of i] False by (simp add: u_def)
  then have um: "u \<le> maxUint64" by (simp add: maxUint64_def)
  obtain d cs where d: "d < 10" "formatBits u = digit_char d # cs"
    using formatBits_hd [of u] by blast
  have w: "word_of_nat u = i"
    using False by (simp add: u_def)
  have "ParseInt (formatBits u) = (word_of_nat u, None)"
    using ParseUint_formatBits [OF um] d digit_char_not_sign [OF d(1)] ub
    by (simp add: ParseInt_def)
  then show ?thesis using False w by (simp add: FormatInt_def u_def)
next
  case True
  define u where "u = nat (- sint i)"
  have ub: "u \<le> 2 ^ 63"
    using sint_ge [of i] True by (simp add: u_def)
  then have um: "u \<le> maxUint64" by (simp add: maxUint64_def)
  have w: "- word_of_nat u = i"
    using True by (simp add: u_def)
  have "ParseInt (CHR ''-'' # formatBits u) = (- word_of_nat u, None)"
    using ParseUint_formatBits [OF um] ub
    by (simp add: ParseInt_def)
  then show ?thesis using True w by (simp add: FormatInt_def u_def)
qed

lemma id_less_FormatInt: "id_less (FormatInt a) (FormatInt b) = (sint a < sint b)"
  by (simp add: id_less_def ParseInt_FormatInt)


section \<open>Properties of the repository\<close>

text \<open>
  C6. \<open>UpdateTask\<close> on an id that is stored maps that id to the given task and returns the
  task; on an id that is not stored it returns \<open>ErrTaskNotFound\<close> and leaves heap and
  repository as they were. In both cases the set of stored ids is unchanged.
\<close>

theorem UpdateTask_replaces_or_NotFound:
  "(tasks r (ID (objs h task)) \<noteq> None \<longrightarrow>
      Repository_UpdateTask task (h, r)
        = (Inr task, h, r\<lparr>tasks := (tasks r)(ID (objs h task) \<mapsto> task)\<rparr>))
   \<and> (tasks r (ID (objs h task)) = None \<longrightarrow>
      Repository_UpdateTask task (h, r) = (Inl ErrTaskNotFound, h, r))
   \<and> dom (tasks (snd (snd (Repository_UpdateTask task (h, r))))) = dom (tasks r)"
  by (auto simp: Repository_UpdateTask_def split: option.splits)

theorem UpdateTask_replaces_or_NotFound_witness:
  "fst (Repository_UpdateTask 0
      (\<lparr>objs = (\<lambda>_. \<lparr>ID = ''1'', Title = ''T'', Description = ''D'', Status = StatusPending,
          CreatedAt = 1, StartedAt = None, CompletedAt = None, DurationStr = [],
          Result = [], Error = []\<rparr>), top = 1\<rparr>,
       \<lparr>tasks = [''1'' \<mapsto> 0], nextID = 2\<rparr>)) = Inr 0
   \<and> Repository_UpdateTask 0
      (\<lparr>objs = (\<lambda>_. \<lparr>ID = ''1'', Title = ''T'', Description = ''D'', Status = StatusPending,
          CreatedAt = 1, StartedAt = None, CompletedAt = None, DurationStr = [],
          Result = [], Error = []\<rparr>), top = 1\<rparr>,
       \<lparr>tasks = Map.empty, nextID = 2\<rparr>)
     = (Inl ErrTaskNotFound,
        \<lparr>objs = (\<lambda>_. \<lparr>ID = ''1'', Title = ''T'', Description = ''D'', Status = StatusPending,
          CreatedAt = 1, StartedAt = None, CompletedAt = None, DurationStr = [],
          Result = [], Error = []\<rparr>), top = 1\<rparr>,
        \<lparr>tasks = Map.empty, nextID = 2\<rparr>)"
  using UpdateTask_replaces_or_NotFound
    [of "\<lparr>tasks = [''1'' \<mapsto> 0], nextID = 2\<rparr>"
        "\<lparr>objs = (\<lambda>_. \<lparr>ID = ''1'', Title = ''T'', Description = ''D'', Status = StatusPending,
          CreatedAt = 1, StartedAt = None, CompletedAt = None, DurationStr = [],
          Result = [], Error = []\<rparr>), top = 1\<rparr>" 0]
    UpdateTask_replaces_or_NotFound
    [of "\<lparr>tasks = Map.empty, nextID = 2\<rparr>"
        "\<lparr>objs = (\<lambda>_. \<lparr>ID = ''1'', Title = ''T'', Description = ''D'', Status = StatusPending,
          CreatedAt = 1, StartedAt = None, CompletedAt = None, DurationStr = [],
          Result = [], Error = []\<rparr>), top = 1\<rparr>" 0]
  by simp

text \<open>
  C7. When \<open>DeleteTask\<close> returns no error, the id is gone from the map and \<open>GetTask\<close> on the
  resulting repository returns \<open>ErrTaskNotFound\<close>.
\<close>

theorem Delete_then_Get_NotFound:
  "Repository_DeleteTask tid r = (None, r') \<Longrightarrow>
     Repository_GetTask tid r' = Inl ErrTaskNotFound \<and> tid \<notin> dom (tasks r')"
  by (auto simp: Repository_DeleteTask_def Repository_GetTask_def split: option.splits)

theorem Delete_then_Get_NotFound_witness:
  "Repository_DeleteTask ''1'' \<lparr>tasks = [''1'' \<mapsto> 0], nextID = 2\<rparr>
     = (None, \<lparr>tasks = Map.empty, nextID = 2\<rparr>)
   \<and> Repository_GetTask ''1'' \<lparr>tasks = Map.empty, nextID = 2\<rparr> = Inl ErrTaskNotFound"
proof -
  have d: "Repository_DeleteTask ''1'' \<lparr>tasks = [''1'' \<mapsto> 0], nextID = 2\<rparr>
     = (None, \<lparr>tasks = Map.empty, nextID = 2\<rparr>)"
    by (simp add: Repository_DeleteTask_def)
  show ?thesis
    using d Delete_then_Get_NotFound [OF d] by simp
qed

text \<open>
  C10. \<open>CreateTask\<close> of the repository writes its own next id over the id the task carried,
  stores the task under that id and no other new key, and returns the same task; nothing
  else of the task, and no other object, is changed. A task fresh from \<open>NewTask\<close> carries
  the id made from the counter of the model package, and has the id of the repository
  after \<open>CreateTask\<close>.
\<close>

theorem CreateTask_overwrites_ID:
  "Repository_CreateTask task (h, r)
     = ((task, None),
        h\<lparr>objs := (objs h)(task := (objs h task)\<lparr>ID := FormatInt (nextID r)\<rparr>)\<rparr>,
        r\<lparr>tasks := (tasks r)(FormatInt (nextID r) \<mapsto> task), nextID := nextID r + 1\<rparr>)
   \<and> ID (objs (fst (snd (Repository_CreateTask task (h, r)))) task) = FormatInt (nextID r)
   \<and> tasks (snd (snd (Repository_CreateTask task (h, r)))) (FormatInt (nextID r)) = Some task
   \<and> ID (objs (fst (snd (NewTask title description now (h, c))))
            (fst (NewTask title description now (h, c)))) = FormatUint (c + 1)
   \<and> ID (objs (fst (snd (Repository_CreateTask (fst (NewTask title description now (h, c)))
                           (fst (snd (NewTask title description now (h, c))), r))))
            (fst (NewTask title description now (h, c)))) = FormatInt (nextID r)"
  by (simp add: Repository_CreateTask_def getNextID_def NewTask_def generateTaskID_def Let_def)

subsection \<open>Identifiers assigned by a sequence of operations\<close>

lemma apply_ops_ids:
  "fst (apply_ops ops (h, r)) = map (\<lambda>k. FormatInt (nextID r + word_of_nat k)) [0..<creates ops]"
proof (induction ops arbitrary: h r)
  case Nil
  then show ?case by simp
next
  case (Cons op ops)
  show ?case
  proof (cases op)
    case (OpCreate task)
    define h' where "h' = h\<lparr>objs := (objs h)(task := (objs h task)\<lparr>ID := FormatInt (nextID r)\<rparr>)\<rparr>"
    define r' where "r' = r\<lparr>tasks := (tasks r)(FormatInt (nextID r) \<mapsto> task), nextID := nextID r + 1\<rparr>"
    have c: "Repository_CreateTask task (h, r) = ((task, None), h', r')"
      by (simp add: Repository_CreateTask_def getNextID_def h'_def r'_def)
    have ih: "fst (apply_ops ops (h', r'))
        = map (\<lambda>k. FormatInt (nextID r + 1 + word_of_nat k)) [0..<creates ops]"
      using Cons.IH [of h' r'] by (simp add: r'_def)
    have "fst (apply_ops (op # ops) (h, r))
        = FormatInt (nextID r) # map (\<lambda>k. FormatInt (nextID r + 1 + word_of_nat k)) [0..<creates ops]"
      using ih by (auto simp: OpCreate c h'_def split: prod.splits)
    also have "\<dots> = map (\<lambda>k. FormatInt (nextID r + word_of_nat k)) [0..<Suc (creates ops)]"
      by (simp add: upt_conv_Cons map_Suc_upt [symmetric] add.assoc del: upt_Suc)
    finally show ?thesis by (simp add: OpCreate)
  next
    case (OpDelete tid)
    have "nextID (snd (Repository_DeleteTask tid r)) = nextID r"
      by (simp add: Repository_DeleteTask_def split: option.splits)
    then show ?thesis
      using Cons.IH [of h "snd (Repository_DeleteTask tid r)"] by (simp add: OpDelete)
  qed
qed

lemma sint_small: "n < 2 ^ 63 \<Longrightarrow> sint (word_of_nat n :: 64 word) = int n"
  by (simp add: signed_of_nat signed_take_bit_int_eq_self)



lemma sorted_wrt_map_upt:
  assumes "\<And>i j. i < j \<Longrightarrow> j < n \<Longrightarrow> P (f i) (f j)"
  shows "sorted_wrt P (map f [0..<n])"
  using assms by (simp add: sorted_wrt_iff_nth_less)

lemma id_less_irrefl: "\<not> id_less a a"
  by (simp add: id_less_def split: prod.splits option.splits)

lemma sorted_wrt_id_less_distinct: "sorted_wrt id_less xs \<Longrightarrow> distinct xs"
  by (induction xs) (auto simp: id_less_irrefl)

text \<open>
  C2, as amended. From a new repository, as long as fewer than \<open>2 ^ 63\<close> tasks have been
  created, every id assigned is greater, as a number, than every id assigned before it,
  and no id is assigned twice, whatever deletions happen in between.
\<close>

theorem ids_strictly_increasing_below_wrap:
  assumes "creates ops < 2 ^ 63"
  shows "sorted_wrt id_less (fst (apply_ops ops (h, NewTaskRepository)))
         \<and> distinct (fst (apply_ops ops (h, NewTaskRepository)))"
proof -
  let ?f = "\<lambda>k. FormatInt (1 + word_of_nat k)"
  have ids: "fst (apply_ops ops (h, NewTaskRepository)) = map ?f [0..<creates ops]"
    by (simp add: apply_ops_ids NewTaskRepository_def)
  have v: "sint (1 + word_of_nat k :: 64 word) = 1 + int k" if "k < creates ops" for k
  proof -
    have "Suc k < 2 ^ 63" using that assms by simp
    then have "sint (word_of_nat (Suc k) :: 64 word) = int (Suc k)" by (rule sint_small)
    then show ?thesis by simp
  qed
  have "sorted_wrt id_less (map ?f [0..<creates ops])"
  proof (rule sorted_wrt_map_upt)
    fix i j assume "i < j" "j < creates ops"
    then show "id_less (?f i) (?f j)"
      using v [of i] v [of j] by (simp add: id_less_FormatInt)
  qed
  then show ?thesis
    using ids sorted_wrt_id_less_distinct by simp
qed

theorem ids_strictly_increasing_below_wrap_witness:
  "creates [OpCreate 0, OpDelete ''1'', OpCreate 1] < 2 ^ 63
   \<and> fst (apply_ops [OpCreate 0, OpDelete ''1'', OpCreate 1] (example_heap, NewTaskRepository))
       = [''1'', ''2'']
   \<and> sorted_wrt id_less [''1'', ''2'']"
proof -
  have c: "creates [OpCreate 0, OpDelete ''1'', OpCreate 1] < 2 ^ 63" by simp
  have e: "fst (apply_ops [OpCreate 0, OpDelete ''1'', OpCreate 1] (example_heap, NewTaskRepository))
       = [''1'', ''2'']"
    by (simp add: Repository_CreateTask_def getNextID_def NewTaskRepository_def
        Repository_DeleteTask_def FormatInt_def formatBits.simps digit_char_numerals)
  show ?thesis
    using c e ids_strictly_increasing_below_wrap [OF c, of example_heap] by simp
qed

lemma creates_replicate: "creates (replicate n (OpCreate a)) = n"
  by (induction n) simp_all

lemma ids_wrap_general:
  assumes n: "n = 2 ^ 63"
  shows "\<not> sorted_wrt id_less (fst (apply_ops (replicate n (OpCreate a)) (h, NewTaskRepository)))"
proof
  let ?f = "\<lambda>k. FormatInt (1 + word_of_nat k :: 64 word)"
  let ?ids = "fst (apply_ops (replicate n (OpCreate a)) (h, NewTaskRepository))"
  assume s: "sorted_wrt id_less ?ids"
  have ids: "?ids = map ?f [0..<n]"
    by (simp add: apply_ops_ids NewTaskRepository_def creates_replicate)
  have lt: "n - 2 < n - 1" "n - 1 < n" using n by simp_all
  have "id_less (map ?f [0..<n] ! (n - 2)) (map ?f [0..<n] ! (n - 1))"
    by (rule sorted_wrt_nth_less [OF s [unfolded ids]]) (use lt in simp_all)
  moreover have "map ?f [0..<n] ! (n - 2) = ?f (n - 2)" "map ?f [0..<n] ! (n - 1) = ?f (n - 1)"
    using lt by simp_all
  ultimately have "id_less (?f (n - 2)) (?f (n - 1))"
    by simp
  then have "sint (1 + word_of_nat (n - 2) :: 64 word) < sint (1 + word_of_nat (n - 1) :: 64 word)"
    unfolding id_less_FormatInt .
  moreover have "(1 + word_of_nat (n - 2) :: 64 word) = 9223372036854775807"
    unfolding n by simp
  moreover have "(1 + word_of_nat (n - 1) :: 64 word) = 9223372036854775808"
    unfolding n by simp
  ultimately have "sint (9223372036854775807 :: 64 word) < sint (9223372036854775808 :: 64 word)"
    by simp
  then show False
    by simp
qed

text \<open>
  C2, as stated, fails: \<open>nextID\<close> is an int64. The creation number \<open>2 ^ 63 - 1\<close> assigns
  9223372036854775807, the increment wraps, and the creation number \<open>2 ^ 63\<close> assigns
  -9223372036854775808, which is smaller.
\<close>

theorem ids_wrap_after_2_63_creates:
  "\<not> sorted_wrt id_less
       (fst (apply_ops (replicate (2 ^ 63) (OpCreate 0)) (example_heap, NewTaskRepository)))"
  by (rule ids_wrap_general) (rule refl)

section \<open>Properties of the service\<close>

text \<open>
  C3. When \<open>strconv.ParseInt(id, 10, 64)\<close> fails, \<open>GetTask\<close> and \<open>DeleteTask\<close> of the service
  return \<open>ErrInvalidTaskID\<close>, which is not and does not wrap \<open>ErrTaskNotFound\<close>; the result
  is the same for every state of the store, and \<open>DeleteTask\<close> leaves the state untouched.
\<close>

theorem invalid_id_is_InvalidID:
  "snd (ParseInt tid) \<noteq> None \<Longrightarrow>
     TaskService_GetTask tid s = Inl ErrInvalidTaskID
     \<and> TaskService_DeleteTask tid s = (Some ErrInvalidTaskID, s)
     \<and> \<not> errors_Is ErrInvalidTaskID ErrTaskNotFound
     \<and> TaskService_GetTask tid s' = TaskService_GetTask tid s"
  by (auto simp: TaskService_GetTask_def TaskService_DeleteTask_def split: prod.splits option.splits)

theorem invalid_id_is_InvalidID_witness:
  "snd (ParseInt ''12x'') \<noteq> None
   \<and> TaskService_GetTask ''12x'' (NewTaskService NewTaskRepository example_heap 0)
       = Inl ErrInvalidTaskID
   \<and> fst (TaskService_DeleteTask ''12x'' (NewTaskService NewTaskRepository example_heap 0))
       = Some ErrInvalidTaskID"
proof -
  have p: "snd (ParseInt ''12x'') \<noteq> None"
    by (simp add: ParseInt_def ParseUint_def maxUint64_def)
  show ?thesis
    using p invalid_id_is_InvalidID [OF p, of "NewTaskService NewTaskRepository example_heap 0"]
    by simp
qed


section \<open>Properties of the worker loop\<close>

lemma setWorker_simps [simp]:
  "mem (setWorker i w s) = mem s" "repo (setWorker i w s) = repo s"
  "taskQueue (setWorker i w s) = taskQueue s" "sendq (setWorker i w s) = sendq s"
  "ctxDone (setWorker i w s) = ctxDone s" "shutdownChan (setWorker i w s) = shutdownChan s"
  "workers (setWorker i w s) = (workers s)[i := w]"
  "taskCounter (setWorker i w s) = taskCounter s"
  by (simp_all add: setWorker_def)

lemma stopReady_setWorker [simp]: "stopReady (setWorker i w s) = stopReady s"
  by (simp add: stopReady_def)

lemma UpdateTask_heap [simp]: "fst (snd (Repository_UpdateTask task (h, r))) = h"
  by (simp add: Repository_UpdateTask_def split: option.splits)

lemma holds_update:
  assumes "w' \<in> set (ws[i := w])" "holds w' a"
  shows "holds w a \<or> (\<exists>w'' \<in> set ws. holds w'' a)"
  using assms set_update_subset_insert [of ws i w] by auto

lemma in_flight_setWorker:
  "in_flight a (setWorker i w s) \<Longrightarrow> holds w a \<or> in_flight a s"
  unfolding in_flight_def using holds_update [of _ "workers s" i w a] by auto

lemma step2_mem:
  "mem (step2 task now i s)
     = (mem s)\<lparr>objs := (objs (mem s))(task := UpdateStatus StatusProcessing now (objs (mem s) task))\<rparr>"
  by (simp add: step2_def Let_def Repository_UpdateTask_def split: option.splits)

lemma step4_mem:
  "mem (step4 task now i s)
     = (mem s)\<lparr>objs := (objs (mem s))(task :=
          (UpdateStatus StatusCompleted now (objs (mem s) task))\<lparr>Result := ''Task completed successfully''\<rparr>)\<rparr>"
  by (simp add: step4_def Let_def Repository_UpdateTask_def split: option.splits)

lemma step2_rest [simp]:
  "taskQueue (step2 task now i s) = taskQueue s" "sendq (step2 task now i s) = sendq s"
  "ctxDone (step2 task now i s) = ctxDone s" "shutdownChan (step2 task now i s) = shutdownChan s"
  by (simp_all add: step2_def Let_def Repository_UpdateTask_def split: option.splits)

lemma step4_rest [simp]:
  "taskQueue (step4 task now i s) = taskQueue s" "sendq (step4 task now i s) = sendq s"
  "ctxDone (step4 task now i s) = ctxDone s" "shutdownChan (step4 task now i s) = shutdownChan s"
  "workers (step4 task now i s) = (workers s)[i := Outer]"
  by (simp_all add: step4_def Let_def Repository_UpdateTask_def split: option.splits)

lemma step2_workers:
  "workers (step2 task now i s) = (workers s)[i := Outer]
   \<or> workers (step2 task now i s) = (workers s)[i := Delay task]"
  by (simp add: step2_def Let_def Repository_UpdateTask_def split: option.splits)

lemma worker_step_top: "top (mem (worker_step pk now i s)) = top (mem s)"
  by (simp add: worker_step_def step2_mem step4_mem Let_def
      split: wstate.splits list.splits option.splits)

lemma worker_step_flags:
  "ctxDone (worker_step pk now i s) = ctxDone s"
  "shutdownChan (worker_step pk now i s) = shutdownChan s"
  by (simp_all add: worker_step_def Let_def split: wstate.splits list.splits option.splits)


lemma in_flight_queue_cong:
  assumes "set (taskQueue s') \<union> set (sendq s') \<subseteq> set (taskQueue s) \<union> set (sendq s)"
      and "workers s' = workers s"
  shows "in_flight a s' \<Longrightarrow> in_flight a s"
  using assms unfolding in_flight_def by auto

lemma in_flight_worker_nth:
  "i < length (workers s) \<Longrightarrow> holds (workers s ! i) a \<Longrightarrow> in_flight a s"
  unfolding in_flight_def using nth_mem by blast

lemma in_flight_step2: "in_flight a (step2 task now i s) \<Longrightarrow> a = task \<or> in_flight a s"
proof -
  assume f: "in_flight a (step2 task now i s)"
  from step2_workers [of task now i s] show ?thesis
  proof
    assume w: "workers (step2 task now i s) = (workers s)[i := Outer]"
    show ?thesis
      using f holds_update [of _ "workers s" i Outer a] unfolding in_flight_def w by auto
  next
    assume w: "workers (step2 task now i s) = (workers s)[i := Delay task]"
    show ?thesis
      using f holds_update [of _ "workers s" i "Delay task" a] unfolding in_flight_def w by auto
  qed
qed

lemma in_flight_step4: "in_flight a (step4 task now i s) \<Longrightarrow> in_flight a s"
  using holds_update [of _ "workers s" i Outer a] unfolding in_flight_def by auto

lemma in_flight_dequeue:
  assumes q: "taskQueue s = x # q"
      and f: "in_flight a (setWorker i w (s\<lparr>taskQueue := q @ take 1 (sendq s), sendq := drop 1 (sendq s)\<rparr>))"
      and w: "holds w a \<Longrightarrow> x = Some a"
  shows "in_flight a s"
proof -
  let ?s1 = "s\<lparr>taskQueue := q @ take 1 (sendq s), sendq := drop 1 (sendq s)\<rparr>"
  from in_flight_setWorker [OF f] show ?thesis
  proof
    assume "holds w a"
    then show ?thesis using w q by (simp add: in_flight_def)
  next
    assume "in_flight a ?s1"
    then show ?thesis
      using q set_take_subset [of 1 "sendq s"] set_drop_subset [of 1 "sendq s"]
      by (auto simp: in_flight_def)
  qed
qed

lemma worker_step_in_flight:
  assumes "in_flight a (worker_step pk now i s)"
  shows "in_flight a s"
proof (cases "i < length (workers s)")
  case False
  then show ?thesis using assms by (simp add: worker_step_def)
next
  case True
  show ?thesis
  proof (cases "workers s ! i")
    case Outer
    then show ?thesis
      using assms True
      by (auto simp: worker_step_def split: if_splits dest: in_flight_setWorker)
  next
    case Inner
    show ?thesis
    proof (cases "taskQueue s")
      case Nil
      then show ?thesis
        using assms True Inner
        by (auto simp: worker_step_def split: if_splits dest: in_flight_setWorker)
    next
      case (Cons x q)
      show ?thesis
      proof (cases "\<not> stopReady s \<or> pk = PickQueue")
        case False
        then show ?thesis
          using assms True Inner Cons
          by (auto simp: worker_step_def dest: in_flight_setWorker)
      next
        case go: True
        show ?thesis
        proof (cases x)
          case None
          have "in_flight a (setWorker i Outer (s\<lparr>taskQueue := q @ take 1 (sendq s), sendq := drop 1 (sendq s)\<rparr>))"
            using assms True Inner Cons go None by (auto simp: worker_step_def Let_def)
          then show ?thesis by (rule in_flight_dequeue [OF Cons]) simp
        next
          case (Some task)
          have "in_flight a (setWorker i (Dequeued task) (s\<lparr>taskQueue := q @ take 1 (sendq s), sendq := drop 1 (sendq s)\<rparr>))"
            using assms True Inner Cons go Some by (auto simp: worker_step_def Let_def)
          then show ?thesis by (rule in_flight_dequeue [OF Cons]) (simp add: Some)
        qed
      qed
    qed
  next
    case (Dequeued task)
    then show ?thesis
      using assms True in_flight_step2 [of a task now i s] in_flight_worker_nth [of i s a]
      by (auto simp: worker_step_def)
  next
    case (Delay task)
    then show ?thesis
      using assms True in_flight_worker_nth [of i s a]
      by (auto simp: worker_step_def split: if_splits dest: in_flight_setWorker)
  next
    case (Completing task)
    then show ?thesis
      using assms True in_flight_step4 [of a task now i s]
      by (auto simp: worker_step_def)
  next
    case Stopped
    then show ?thesis using assms True by (simp add: worker_step_def)
  qed
qed

lemma worker_step_objs:
  assumes "\<not> in_flight a s"
  shows "objs (mem (worker_step pk now i s)) a = objs (mem s) a"
proof (cases "i < length (workers s)")
  case False
  then show ?thesis by (simp add: worker_step_def)
next
  case True
  have ne: "a \<noteq> task" if "holds (workers s ! i) task" for task
    using that assms True in_flight_worker_nth [of i s task] by auto
  show ?thesis
    using True ne
    by (auto simp: worker_step_def step2_mem step4_mem Let_def
        split: wstate.splits list.splits option.splits)
qed



lemma NewTask_then_Create:
  "Repository_CreateTask (fst (NewTask title description now (h, c)))
      (fst (snd (NewTask title description now (h, c))), r)
   = ((top h, None),
      \<lparr>objs = (objs h)(top h :=
          \<lparr>ID = FormatInt (nextID r), Title = title, Description = description,
           Status = StatusPending, CreatedAt = now, StartedAt = None, CompletedAt = None,
           DurationStr = [], Result = [], Error = []\<rparr>),
        top = Suc (top h)\<rparr>,
      r\<lparr>tasks := (tasks r)(FormatInt (nextID r) \<mapsto> top h), nextID := nextID r + 1\<rparr>)"
  by (simp add: NewTask_def generateTaskID_def Repository_CreateTask_def getNextID_def Let_def)


lemma NewTask_counter: "snd (snd (NewTask title description now (h, c))) = c + 1"
  by (simp add: NewTask_def generateTaskID_def Let_def)

lemma CreateTask_unfold:
  "TaskService_CreateTask ctx pk req now s =
     (if length (taskQueue s) < queueCap \<and> (ctx = None \<or> pk \<noteq> PickStop)
      then (Returned (Some (top (mem s))) None,
            (created req now s)\<lparr>taskQueue := taskQueue s @ [Some (top (mem s))]\<rparr>)
      else (case ctx of
              Some cerr \<Rightarrow> (Returned None (Some (Wrap cerr ''task queue is full'')), created req now s)
            | None \<Rightarrow> (BlockedInSend, (created req now s)\<lparr>sendq := sendq s @ [Some (top (mem s))]\<rparr>)))"
  unfolding TaskService_CreateTask_def case_prod_beta NewTask_then_Create NewTask_counter
  by (cases ctx) (simp_all add: created_def new_task_object_def Let_def)


lemma created_simps [simp]:
  "mem (created req now s)
     = \<lparr>objs = (objs (mem s))(top (mem s) := new_task_object s req now), top = Suc (top (mem s))\<rparr>"
  "repo (created req now s)
     = (repo s)\<lparr>tasks := (tasks (repo s))(FormatInt (nextID (repo s)) \<mapsto> top (mem s)),
                nextID := nextID (repo s) + 1\<rparr>"
  "workers (created req now s) = workers s"
  "taskQueue (created req now s) = taskQueue s"
  "sendq (created req now s) = sendq s"
  "ctxDone (created req now s) = ctxDone s"
  "shutdownChan (created req now s) = shutdownChan s"
  by (simp_all add: created_def)

lemma CreateTask_mem:
  "mem (snd (TaskService_CreateTask ctx pk req now s))
     = \<lparr>objs = (objs (mem s))(top (mem s) := new_task_object s req now),
        top = Suc (top (mem s))\<rparr>"
  by (cases ctx) (simp_all add: CreateTask_unfold)

lemma CreateTask_repo:
  "repo (snd (TaskService_CreateTask ctx pk req now s))
     = (repo s)\<lparr>tasks := (tasks (repo s))(FormatInt (nextID (repo s)) \<mapsto> top (mem s)),
                nextID := nextID (repo s) + 1\<rparr>"
  by (cases ctx) (simp_all add: CreateTask_unfold)

lemma CreateTask_rest:
  "workers (snd (TaskService_CreateTask ctx pk req now s)) = workers s"
  "ctxDone (snd (TaskService_CreateTask ctx pk req now s)) = ctxDone s"
  "shutdownChan (snd (TaskService_CreateTask ctx pk req now s)) = shutdownChan s"
  by (cases ctx; simp add: CreateTask_unfold)+

lemma CreateTask_result:
  "(fst (TaskService_CreateTask ctx pk req now s) = Returned (Some (top (mem s))) None
      \<and> taskQueue (snd (TaskService_CreateTask ctx pk req now s)) = taskQueue s @ [Some (top (mem s))]
      \<and> sendq (snd (TaskService_CreateTask ctx pk req now s)) = sendq s)
   \<or> ((\<exists>cerr. ctx = Some cerr
          \<and> fst (TaskService_CreateTask ctx pk req now s)
              = Returned None (Some (Wrap cerr ''task queue is full'')))
      \<and> taskQueue (snd (TaskService_CreateTask ctx pk req now s)) = taskQueue s
      \<and> sendq (snd (TaskService_CreateTask ctx pk req now s)) = sendq s)
   \<or> (fst (TaskService_CreateTask ctx pk req now s) = BlockedInSend
      \<and> taskQueue (snd (TaskService_CreateTask ctx pk req now s)) = taskQueue s
      \<and> sendq (snd (TaskService_CreateTask ctx pk req now s)) = sendq s @ [Some (top (mem s))])"
  by (cases ctx) (simp_all add: CreateTask_unfold)

lemma CreateTask_in_flight:
  "in_flight a (snd (TaskService_CreateTask ctx pk req now s)) \<Longrightarrow> a = top (mem s) \<or> in_flight a s"
  using CreateTask_result [of ctx pk req now s]
  by (auto simp: in_flight_def CreateTask_rest)

lemma DeleteTask_rest:
  "mem (snd (TaskService_DeleteTask tid s)) = mem s"
  "taskQueue (snd (TaskService_DeleteTask tid s)) = taskQueue s"
  "sendq (snd (TaskService_DeleteTask tid s)) = sendq s"
  "workers (snd (TaskService_DeleteTask tid s)) = workers s"
  "ctxDone (snd (TaskService_DeleteTask tid s)) = ctxDone s"
  "shutdownChan (snd (TaskService_DeleteTask tid s)) = shutdownChan s"
  by (simp_all add: TaskService_DeleteTask_def split: prod.splits option.splits)

lemma DeleteTask_in_flight: "in_flight a (snd (TaskService_DeleteTask tid s)) = in_flight a s"
  by (simp add: in_flight_def DeleteTask_rest)



lemma in_flight_flags [simp]:
  "in_flight a (s\<lparr>ctxDone := b\<rparr>) = in_flight a s"
  "in_flight a (s\<lparr>shutdownChan := b\<rparr>) = in_flight a s"
  by (simp_all add: in_flight_def)

lemma exec_top: "exec e s = Some s' \<Longrightarrow> top (mem s) \<le> top (mem s')"
proof (cases e)
  case (Worker i pk now)
  then show "exec e s = Some s' \<Longrightarrow> ?thesis" by (auto simp: worker_step_top)
next
  case (Create ctx pk req now)
  then show "exec e s = Some s' \<Longrightarrow> ?thesis" by (auto simp: CreateTask_mem)
next
  case (Delete tid)
  then show "exec e s = Some s' \<Longrightarrow> ?thesis" by (auto simp: DeleteTask_rest)
next
  case Shutdown
  then show "exec e s = Some s' \<Longrightarrow> ?thesis"
    by (auto simp: TaskService_Shutdown_def split: if_splits)
next
  case Cancel
  then show "exec e s = Some s' \<Longrightarrow> ?thesis" by auto
qed

lemma exec_in_flight:
  assumes "exec e s = Some s'" "in_flight a s'"
  shows "in_flight a s \<or> a = top (mem s)"
proof (cases e)
  case (Worker i pk now)
  then show ?thesis using assms worker_step_in_flight [of a pk now i s] by auto
next
  case (Create ctx pk req now)
  then show ?thesis using assms CreateTask_in_flight [of a ctx pk req now s] by auto
next
  case (Delete tid)
  then show ?thesis using assms by (auto simp: DeleteTask_in_flight)
next
  case Shutdown
  then show ?thesis using assms by (auto simp: TaskService_Shutdown_def split: if_splits)
next
  case Cancel
  then show ?thesis using assms by auto
qed

lemma exec_objs:
  assumes "exec e s = Some s'" "\<not> in_flight a s" "a \<noteq> top (mem s)"
  shows "objs (mem s') a = objs (mem s) a"
proof (cases e)
  case (Worker i pk now)
  then show ?thesis using assms worker_step_objs [of a s pk now i] by auto
next
  case (Create ctx pk req now)
  then show ?thesis using assms by (auto simp: CreateTask_mem)
next
  case (Delete tid)
  then show ?thesis using assms by (auto simp: DeleteTask_rest)
next
  case Shutdown
  then show ?thesis using assms by (auto simp: TaskService_Shutdown_def split: if_splits)
next
  case Cancel
  then show ?thesis using assms by auto
qed


lemma wf_exec:
  assumes "wf s" "exec e s = Some s'"
  shows "wf s'"
  unfolding wf_def
proof (intro allI impI)
  fix a assume "in_flight a s'"
  then have "in_flight a s \<or> a = top (mem s)"
    using exec_in_flight [OF assms(2)] by simp
  moreover have "top (mem s) \<le> top (mem s')" using exec_top [OF assms(2)] .
  moreover have "top (mem s) < top (mem s')" if "in_flight (top (mem s)) s'"
  proof (cases e)
    case (Create ctx pk req now)
    then show ?thesis using assms(2) by (auto simp: CreateTask_mem)
  next
    case (Worker i pk now)
    then have "in_flight (top (mem s)) s"
      using that assms(2) worker_step_in_flight [of "top (mem s)" pk now i s] by auto
    then show ?thesis using assms(1) by (auto simp: wf_def)
  next
    case (Delete tid)
    then have "in_flight (top (mem s)) s"
      using that assms(2) by (auto simp: DeleteTask_in_flight)
    then show ?thesis using assms(1) by (auto simp: wf_def)
  next
    case Shutdown
    then have "in_flight (top (mem s)) s"
      using that assms(2) by (auto simp: TaskService_Shutdown_def split: if_splits)
    then show ?thesis using assms(1) by (auto simp: wf_def)
  next
    case Cancel
    then have "in_flight (top (mem s)) s"
      using that assms(2) by auto
    then show ?thesis using assms(1) by (auto simp: wf_def)
  qed
  ultimately show "a < top (mem s')"
    using assms(1) \<open>in_flight a s'\<close> unfolding wf_def by (cases "a = top (mem s)") force+
qed

lemma wf_run: "wf s \<Longrightarrow> run evs s = Some s' \<Longrightarrow> wf s'"
proof (induction evs arbitrary: s)
  case Nil
  then show ?case by simp
next
  case (Cons e evs)
  from Cons.prems(2) obtain s1 where e: "exec e s = Some s1" and r: "run evs s1 = Some s'"
    by (auto split: option.splits)
  show ?case using Cons.IH [OF wf_exec [OF Cons.prems(1) e] r] .
qed

lemma wf_NewTaskService: "wf (NewTaskService r h c)"
  by (simp add: wf_def in_flight_def NewTaskService_def)

lemma orphan_exec:
  assumes "exec e s = Some s'" "a < top (mem s)" "\<not> in_flight a s"
  shows "a < top (mem s') \<and> \<not> in_flight a s' \<and> objs (mem s') a = objs (mem s) a"
proof -
  have "a \<noteq> top (mem s)" using assms(2) by simp
  then show ?thesis
    using assms exec_top [OF assms(1)] exec_in_flight [OF assms(1), of a]
      exec_objs [OF assms(1), of a] by auto
qed

lemma orphan_run:
  "run evs s = Some s' \<Longrightarrow> a < top (mem s) \<Longrightarrow> \<not> in_flight a s \<Longrightarrow>
     \<not> in_flight a s' \<and> objs (mem s') a = objs (mem s) a"
proof (induction evs arbitrary: s)
  case Nil
  then show ?case by simp
next
  case (Cons e evs)
  from Cons.prems(1) obtain s1 where e: "exec e s = Some s1" and r: "run evs s1 = Some s'"
    by (auto split: option.splits)
  from orphan_exec [OF e Cons.prems(2,3)] Cons.IH [OF r] show ?case by simp
qed


lemma reachable_wf: "run evs (NewTaskService r0 h0 c0) = Some s \<Longrightarrow> wf s"
  using wf_run [OF wf_NewTaskService] .

text \<open>
  C9. \<open>CreateTask\<close> of the service stores the new task before the select on the queue.
  When the select takes the \<open>ctx.Done()\<close> case (the context is done, and the queue is full
  or the random choice falls on that case), the call returns the wrapped context error and
  no task, the queue is as before, and the task stays in the repository under its id with
  status Pending. In every later state no worker and no queue holds the task, and the task
  object is never changed again.
\<close>

theorem CreateTask_cancelled_keeps_pending_task:
  assumes reach: "run evs0 (NewTaskService r0 h0 c0) = Some s"
      and cancelled: "ctx = Some cerr" "queueCap \<le> length (taskQueue s) \<or> pk = PickStop"
      and call: "TaskService_CreateTask ctx pk req now s = (res, s1)"
      and later: "run evs s1 = Some s2"
  shows "res = Returned None (Some (Wrap cerr ''task queue is full''))
         \<and> Repository_GetTask (FormatInt (nextID (repo s))) (repo s1) = Inr (top (mem s))
         \<and> ID (objs (mem s1) (top (mem s))) = FormatInt (nextID (repo s))
         \<and> Status (objs (mem s1) (top (mem s))) = StatusPending
         \<and> taskQueue s1 = taskQueue s \<and> sendq s1 = sendq s
         \<and> \<not> in_flight (top (mem s)) s2
         \<and> objs (mem s2) (top (mem s)) = objs (mem s1) (top (mem s))"
proof -
  let ?a = "top (mem s)"
  have u: "TaskService_CreateTask ctx pk req now s
      = (Returned None (Some (Wrap cerr ''task queue is full'')), created req now s)"
    using cancelled by (auto simp: CreateTask_unfold)
  then have res: "res = Returned None (Some (Wrap cerr ''task queue is full''))"
    and s1: "s1 = created req now s"
    using call by simp_all
  have "wf s" using reach by (rule reachable_wf)
  then have nf: "\<not> in_flight ?a s" by (auto simp: wf_def)
  have nf1: "\<not> in_flight ?a s1"
    using nf by (simp add: s1 in_flight_def)
  have lt: "?a < top (mem s1)" by (simp add: s1)
  have orphan: "\<not> in_flight ?a s2 \<and> objs (mem s2) ?a = objs (mem s1) ?a"
    using orphan_run [OF later lt nf1] .
  show ?thesis
    using res orphan
    by (simp add: s1 Repository_GetTask_def new_task_object_def)
qed


theorem CreateTask_cancelled_keeps_pending_task_witness:
  "fst (TaskService_CreateTask (Some Canceled) PickStop \<lparr>reqTitle = ''T'', reqDescription = ''D''\<rparr> 7
         (NewTaskService NewTaskRepository example_heap 0))
     = Returned None (Some (Wrap Canceled ''task queue is full''))
   \<and> \<not> in_flight 2
        (worker_step PickQueue 8 0
          (snd (TaskService_CreateTask (Some Canceled) PickStop
                  \<lparr>reqTitle = ''T'', reqDescription = ''D''\<rparr> 7
                  (NewTaskService NewTaskRepository example_heap 0))))"
proof -
  let ?s = "NewTaskService NewTaskRepository example_heap 0"
  let ?c = "TaskService_CreateTask (Some Canceled) PickStop \<lparr>reqTitle = ''T'', reqDescription = ''D''\<rparr> 7 ?s"
  have r: "run [] ?s = Some ?s" by simp
  have c: "?c = (fst ?c, snd ?c)" by simp
  have l: "run [Worker 0 PickQueue 8] (snd ?c) = Some (worker_step PickQueue 8 0 (snd ?c))" by simp
  have t: "top (mem ?s) = 2" by (simp add: NewTaskService_def example_heap_def)
  show ?thesis
    using CreateTask_cancelled_keeps_pending_task [OF r refl disjI2 [OF refl] c l]
    unfolding t by simp
qed

lemma UpdateStatus_fields:
  "ID (UpdateStatus st now t) = ID t"
  "Status (UpdateStatus st now t) = st"
  "Result (UpdateStatus st now t) = Result t"
  by (simp_all add: UpdateStatus_def Let_def split: option.splits)

lemma UpdateStatus_StartedAt:
  "StartedAt (UpdateStatus st now t) = (if st = StatusProcessing then Some now else StartedAt t)"
  by (simp add: UpdateStatus_def Let_def split: option.splits)

lemma UpdateStatus_CompletedAt:
  "CompletedAt (UpdateStatus st now t)
     = (if st = StatusProcessing then CompletedAt t
        else if st = StatusCompleted \<or> st = StatusFailed then Some now else CompletedAt t)"
  by (simp add: UpdateStatus_def Let_def split: option.splits)

lemma started_inv_update:
  assumes inv: "started_inv s"
      and w: "workers s' = (workers s)[i := w]"
      and mono: "\<And>a. StartedAt (objs (mem s) a) \<noteq> None \<Longrightarrow> StartedAt (objs (mem s') a) \<noteq> None"
      and new: "\<And>a. w = Delay a \<or> w = Completing a \<Longrightarrow> StartedAt (objs (mem s') a) \<noteq> None"
  shows "started_inv s'"
  unfolding started_inv_def
proof (intro ballI allI impI)
  fix w' a assume m: "w' \<in> set (workers s')" and h: "w' = Delay a \<or> w' = Completing a"
  from m have "w' = w \<or> w' \<in> set (workers s)"
    using set_update_subset_insert [of "workers s" i w] unfolding w by auto
  then show "StartedAt (objs (mem s') a) \<noteq> None"
  proof
    assume "w' = w" then show ?thesis using new h by simp
  next
    assume "w' \<in> set (workers s)"
    then have "StartedAt (objs (mem s) a) \<noteq> None" using inv h by (auto simp: started_inv_def)
    then show ?thesis by (rule mono)
  qed
qed

lemma started_inv_same:
  assumes "started_inv s" "workers s' = workers s" "mem s' = mem s"
  shows "started_inv s'"
  using assms by (simp add: started_inv_def)

lemma started_at_nth:
  "started_inv s \<Longrightarrow> i < length (workers s) \<Longrightarrow>
     workers s ! i = Delay a \<or> workers s ! i = Completing a \<Longrightarrow>
     StartedAt (objs (mem s) a) \<noteq> None"
  unfolding started_inv_def using nth_mem by metis

lemma worker_step_length: "length (workers (worker_step pk now i s)) = length (workers s)"
proof -
  have "length (workers (step2 task now i s)) = length (workers s)" for task
    using step2_workers [of task now i s] by auto
  then show ?thesis
    by (simp add: worker_step_def Let_def split: wstate.splits list.splits option.splits)
qed

lemma worker_step_other:
  assumes "j \<noteq> i"
  shows "workers (worker_step pk now j s) ! i = workers s ! i"
proof -
  have "workers (step2 task now j s) ! i = workers s ! i" for task
    using step2_workers [of task now j s] assms by auto
  then show ?thesis
    using assms
    by (simp add: worker_step_def Let_def split: wstate.splits list.splits option.splits)
qed

lemma worker_step_stopReady: "stopReady (worker_step pk now i s) = stopReady s"
  by (simp add: stopReady_def worker_step_flags)

lemma exec_length: "exec e s = Some s' \<Longrightarrow> length (workers s') = length (workers s)"
proof (cases e)
  case (Worker i pk now)
  then show "exec e s = Some s' \<Longrightarrow> ?thesis" by (auto simp: worker_step_length)
next
  case (Create ctx pk req now)
  then show "exec e s = Some s' \<Longrightarrow> ?thesis" by (auto simp: CreateTask_rest)
next
  case (Delete tid)
  then show "exec e s = Some s' \<Longrightarrow> ?thesis" by (auto simp: DeleteTask_rest)
next
  case Shutdown
  then show "exec e s = Some s' \<Longrightarrow> ?thesis"
    by (auto simp: TaskService_Shutdown_def split: if_splits)
next
  case Cancel
  then show "exec e s = Some s' \<Longrightarrow> ?thesis" by auto
qed

lemma exec_stopReady: "exec e s = Some s' \<Longrightarrow> stopReady s \<Longrightarrow> stopReady s'"
proof (cases e)
  case (Worker i pk now)
  then show "exec e s = Some s' \<Longrightarrow> stopReady s \<Longrightarrow> ?thesis"
    by (auto simp: worker_step_stopReady)
next
  case (Create ctx pk req now)
  then show "exec e s = Some s' \<Longrightarrow> stopReady s \<Longrightarrow> ?thesis"
    by (auto simp: stopReady_def CreateTask_rest)
next
  case (Delete tid)
  then show "exec e s = Some s' \<Longrightarrow> stopReady s \<Longrightarrow> ?thesis"
    by (auto simp: stopReady_def DeleteTask_rest)
next
  case Shutdown
  then show "exec e s = Some s' \<Longrightarrow> stopReady s \<Longrightarrow> ?thesis"
    by (auto simp: stopReady_def TaskService_Shutdown_def split: if_splits)
next
  case Cancel
  then show "exec e s = Some s' \<Longrightarrow> stopReady s \<Longrightarrow> ?thesis"
    by (auto simp: stopReady_def)
qed

lemma worker_step_no_dequeue:
  assumes "stopReady s" "i < length (workers s)" "no_dequeue_ahead (workers s ! i)"
  shows "no_dequeue_ahead (workers (worker_step pk now i s) ! i)"
proof (cases "workers s ! i")
  case Outer
  then show ?thesis using assms by (simp add: worker_step_def)
next
  case Inner
  then show ?thesis using assms by simp
next
  case (Dequeued a)
  then show ?thesis using assms by simp
next
  case (Delay a)
  then show ?thesis using assms by (simp add: worker_step_def)
next
  case (Completing a)
  then show ?thesis using assms by (simp add: worker_step_def)
next
  case Stopped
  then show ?thesis using assms by (simp add: worker_step_def)
qed

lemma worker_step_after_dequeue:
  assumes "i < length (workers s)" "workers s ! i = Dequeued b"
  shows "no_dequeue_ahead (workers (worker_step pk now i s) ! i)"
proof -
  have "worker_step pk now i s = step2 b now i s"
    using assms by (simp add: worker_step_def)
  then show ?thesis
    using step2_workers [of b now i s] assms by auto
qed

lemma exec_worker_cases:
  assumes e: "exec e s = Some s'" and i: "i < length (workers s)"
  shows "workers s' ! i = workers s ! i
         \<or> (\<exists>pk now. workers s' ! i = workers (worker_step pk now i s) ! i)"
proof (cases e)
  case (Worker j pk now)
  show ?thesis
  proof (cases "j = i")
    case True
    then show ?thesis using e Worker by auto
  next
    case False
    then show ?thesis using e Worker worker_step_other [of j i pk now s] by auto
  qed
next
  case (Create ctx pk req now)
  then show ?thesis using e by (auto simp: CreateTask_rest)
next
  case (Delete tid)
  then show ?thesis using e by (auto simp: DeleteTask_rest)
next
  case Shutdown
  then show ?thesis using e by (auto simp: TaskService_Shutdown_def split: if_splits)
next
  case Cancel
  then show ?thesis using e by auto
qed

lemma exec_no_dequeue:
  assumes e: "exec e s = Some s'" and st: "stopReady s" and i: "i < length (workers s)"
      and w: "no_dequeue_ahead (workers s ! i)"
  shows "no_dequeue_ahead (workers s' ! i)"
  using exec_worker_cases [OF e i] w worker_step_no_dequeue [OF st i w] by auto

lemma exec_after_dequeue:
  assumes e: "exec e s = Some s'" and st: "stopReady s" and i: "i < length (workers s)"
      and w: "workers s ! i = Dequeued b \<or> no_dequeue_ahead (workers s ! i)"
  shows "workers s' ! i = Dequeued b \<or> no_dequeue_ahead (workers s' ! i)"
  using w
proof
  assume d: "workers s ! i = Dequeued b"
  show ?thesis
    using exec_worker_cases [OF e i] d worker_step_after_dequeue [OF i d] by auto
next
  assume "no_dequeue_ahead (workers s ! i)"
  then show ?thesis using exec_no_dequeue [OF e st i] by simp
qed

lemma run_no_dequeue:
  "run evs s = Some s' \<Longrightarrow> stopReady s \<Longrightarrow> i < length (workers s) \<Longrightarrow>
     no_dequeue_ahead (workers s ! i) \<Longrightarrow>
     no_dequeue_ahead (workers s' ! i) \<and> stopReady s'"
proof (induction evs arbitrary: s)
  case Nil
  then show ?case by simp
next
  case (Cons e evs)
  from Cons.prems(1) obtain s1 where e: "exec e s = Some s1" and r: "run evs s1 = Some s'"
    by (auto split: option.splits)
  have "stopReady s1" using exec_stopReady [OF e Cons.prems(2)] .
  moreover have "i < length (workers s1)" using exec_length [OF e] Cons.prems(3) by simp
  moreover have "no_dequeue_ahead (workers s1 ! i)"
    using exec_no_dequeue [OF e Cons.prems(2,3,4)] .
  ultimately show ?case using Cons.IH [OF r] by simp
qed

lemma run_after_dequeue:
  "run evs s = Some s' \<Longrightarrow> stopReady s \<Longrightarrow> i < length (workers s) \<Longrightarrow>
     workers s ! i = Dequeued b \<or> no_dequeue_ahead (workers s ! i) \<Longrightarrow>
     workers s' ! i = Dequeued b \<or> no_dequeue_ahead (workers s' ! i)"
proof (induction evs arbitrary: s)
  case Nil
  then show ?case by simp
next
  case (Cons e evs)
  from Cons.prems(1) obtain s1 where e: "exec e s = Some s1" and r: "run evs s1 = Some s'"
    by (auto split: option.splits)
  have "stopReady s1" using exec_stopReady [OF e Cons.prems(2)] .
  moreover have "i < length (workers s1)" using exec_length [OF e] Cons.prems(3) by simp
  moreover have "workers s1 ! i = Dequeued b \<or> no_dequeue_ahead (workers s1 ! i)"
    using exec_after_dequeue [OF e Cons.prems(2,3,4)] .
  ultimately show ?case using Cons.IH [OF r] by simp
qed

lemma step4_task:
  "objs (mem (step4 task now i s)) task
     = (UpdateStatus StatusCompleted now (objs (mem s) task))\<lparr>Result := ''Task completed successfully''\<rparr>"
  by (simp add: step4_mem)

lemma step4_repo:
  "repo (step4 task now i s)
     = (case tasks (repo s) (ID (objs (mem s) task)) of
          None \<Rightarrow> repo s
        | Some _ \<Rightarrow> (repo s)\<lparr>tasks := (tasks (repo s))(ID (objs (mem s) task) \<mapsto> task)\<rparr>)"
  by (simp add: step4_def Let_def Repository_UpdateTask_def UpdateStatus_fields split: option.splits)


lemma worker_step_started:
  assumes inv: "started_inv s"
  shows "started_inv (worker_step pk now i s)"
proof (cases "i < length (workers s)")
  case False
  then show ?thesis using inv by (simp add: worker_step_def)
next
  case i: True
  show ?thesis
  proof (cases "workers s ! i")
    case Outer
    have "started_inv (setWorker i w s)" if "w = Stopped \<or> w = Inner" for w
      by (rule started_inv_update [OF inv, of _ i w]) (use that in auto)
    then show ?thesis using i Outer by (simp add: worker_step_def)
  next
    case Inner
    have plain: "started_inv (setWorker i Stopped s)"
      by (rule started_inv_update [OF inv, of _ i Stopped]) auto
    have deq: "started_inv (setWorker i w (s\<lparr>taskQueue := q, sendq := q'\<rparr>))"
      if "w = Outer \<or> w = Dequeued task" for w q q' task
      by (rule started_inv_update [OF inv, of _ i w]) (use that in auto)
    show ?thesis
      using i Inner plain deq inv
      by (simp add: worker_step_def Let_def split: list.splits option.splits)
  next
    case (Dequeued task)
    have "started_inv (step2 task now i s)"
    proof -
      from step2_workers [of task now i s] show ?thesis
      proof
        assume w: "workers (step2 task now i s) = (workers s)[i := Outer]"
        show ?thesis
          by (rule started_inv_update [OF inv w])
             (auto simp: step2_mem UpdateStatus_StartedAt)
      next
        assume w: "workers (step2 task now i s) = (workers s)[i := Delay task]"
        show ?thesis
          by (rule started_inv_update [OF inv w])
             (auto simp: step2_mem UpdateStatus_StartedAt)
      qed
    qed
    then show ?thesis using i Dequeued by (simp add: worker_step_def)
  next
    case (Delay task)
    have st: "StartedAt (objs (mem s) task) \<noteq> None"
      using started_at_nth [OF inv i] Delay by simp
    have c: "started_inv (setWorker i (Completing task) s)"
      by (rule started_inv_update [OF inv, of _ i "Completing task"]) (use st in auto)
    have p: "started_inv (setWorker i Stopped s)"
      by (rule started_inv_update [OF inv, of _ i Stopped]) auto
    show ?thesis using i Delay c p inv by (simp add: worker_step_def)
  next
    case (Completing task)
    have "started_inv (step4 task now i s)"
      by (rule started_inv_update [OF inv, of _ i Outer])
         (auto simp: step4_mem UpdateStatus_StartedAt Status_defs)
    then show ?thesis using i Completing by (simp add: worker_step_def)
  next
    case Stopped
    then show ?thesis using i inv by (simp add: worker_step_def)
  qed
qed

lemma started_exec:
  assumes wf: "wf s" and inv: "started_inv s" and e: "exec e s = Some s'"
  shows "started_inv s'"
proof (cases e)
  case (Worker i pk now)
  then show ?thesis using e worker_step_started [OF inv] by auto
next
  case (Create ctx pk req now)
  have "StartedAt (objs (mem s') a) \<noteq> None"
    if m: "w \<in> set (workers s)" and h: "w = Delay a \<or> w = Completing a" for w a
  proof -
    have "holds w a" using h by auto
    then have "in_flight a s" using m unfolding in_flight_def by blast
    then have "a \<noteq> top (mem s)" using wf by (auto simp: wf_def)
    moreover have "StartedAt (objs (mem s) a) \<noteq> None" using inv m h by (auto simp: started_inv_def)
    ultimately show ?thesis using e Create by (auto simp: CreateTask_mem)
  qed
  moreover have "workers s' = workers s" using e Create by (auto simp: CreateTask_rest)
  ultimately show ?thesis by (auto simp: started_inv_def)
next
  case (Delete tid)
  show ?thesis
    by (rule started_inv_same [OF inv]) (use e Delete in \<open>auto simp: DeleteTask_rest\<close>)
next
  case Shutdown
  show ?thesis
    by (rule started_inv_same [OF inv])
       (use e Shutdown in \<open>auto simp: TaskService_Shutdown_def split: if_splits\<close>)
next
  case Cancel
  show ?thesis
    by (rule started_inv_same [OF inv]) (use e Cancel in auto)
qed

lemma started_run: "wf s \<Longrightarrow> started_inv s \<Longrightarrow> run evs s = Some s' \<Longrightarrow> started_inv s'"
proof (induction evs arbitrary: s)
  case Nil
  then show ?case by simp
next
  case (Cons e evs)
  from Cons.prems(3) obtain s1 where e: "exec e s = Some s1" and r: "run evs s1 = Some s'"
    by (auto split: option.splits)
  show ?case
    using Cons.IH [OF wf_exec [OF Cons.prems(1) e] started_exec [OF Cons.prems(1,2) e] r] .
qed

lemma started_NewTaskService: "started_inv (NewTaskService r h c)"
  by (simp add: started_inv_def NewTaskService_def)

lemma reachable_started: "run evs (NewTaskService r0 h0 c0) = Some s \<Longrightarrow> started_inv s"
  using started_run [OF wf_NewTaskService started_NewTaskService] .


subsection \<open>Steps of the worker on a running service\<close>

lemmas eval_simps =
  example_service_def example_request_def example_heap_def example_task_def
  NewTaskService_def NewTaskRepository_def
  worker_step_def step2_def step4_def setWorker_def stopReady_def
  CreateTask_unfold created_def new_task_object_def queueCap_def
  TaskService_DeleteTask_def TaskService_GetTask_def TaskService_Shutdown_def
  Repository_UpdateTask_def Repository_DeleteTask_def Repository_GetTask_def
  UpdateStatus_fields UpdateStatus_StartedAt UpdateStatus_CompletedAt
  FormatInt_def formatBits.simps digit_char_numerals
  ParseInt_def ParseUint_def maxUint64_def Status_defs Let_def

text \<open>
  C4, as amended. When a worker runs step 4 on a task, the task object afterwards has
  status Completed, the result string "Task completed successfully", its start time and
  the completion time. If the id of the task is still in the repository, \<open>UpdateTask\<close>
  succeeds and the repository gives this task for the id; if the id has been deleted in
  the meantime, \<open>UpdateTask\<close> returns \<open>ErrTaskNotFound\<close> and the repository stays as it is.
\<close>

theorem step4_completes_and_persists_if_stored:
  assumes reach: "run evs (NewTaskService r0 h0 c0) = Some s"
      and i: "i < length (workers s)"
      and w: "workers s ! i = Completing task"
      and s': "s' = worker_step pk now i s"
  shows "workers s' ! i = Outer
         \<and> Status (objs (mem s') task) = StatusCompleted
         \<and> Result (objs (mem s') task) = ''Task completed successfully''
         \<and> StartedAt (objs (mem s') task) \<noteq> None
         \<and> CompletedAt (objs (mem s') task) = Some now
         \<and> ID (objs (mem s') task) = ID (objs (mem s) task)
         \<and> (tasks (repo s) (ID (objs (mem s) task)) \<noteq> None \<longrightarrow>
              Repository_GetTask (ID (objs (mem s) task)) (repo s') = Inr task)
         \<and> (tasks (repo s) (ID (objs (mem s) task)) = None \<longrightarrow>
              repo s' = repo s
              \<and> Repository_GetTask (ID (objs (mem s) task)) (repo s') = Inl ErrTaskNotFound)"
proof -
  have eq: "s' = step4 task now i s" using i w s' by (simp add: worker_step_def)
  have st: "StartedAt (objs (mem s) task) \<noteq> None"
    using started_at_nth [OF reachable_started [OF reach] i] w by simp
  have obj: "objs (mem s') task
      = (UpdateStatus StatusCompleted now (objs (mem s) task))\<lparr>Result := ''Task completed successfully''\<rparr>"
    unfolding eq by (rule step4_task)
  have r: "repo s' = (case tasks (repo s) (ID (objs (mem s) task)) of
          None \<Rightarrow> repo s
        | Some _ \<Rightarrow> (repo s)\<lparr>tasks := (tasks (repo s))(ID (objs (mem s) task) \<mapsto> task)\<rparr>)"
    unfolding eq by (rule step4_repo)
  have "workers s' ! i = Outer" using i by (simp add: eq)
  moreover have "StartedAt (objs (mem s') task) \<noteq> None"
    using st by (simp add: obj UpdateStatus_StartedAt Status_defs)
  moreover have "CompletedAt (objs (mem s') task) = Some now"
    by (simp add: obj UpdateStatus_CompletedAt Status_defs)
  ultimately show ?thesis
    using r by (auto simp: obj UpdateStatus_fields Repository_GetTask_def split: option.splits)
qed


theorem step4_completes_and_persists_if_stored_witness:
  "workers example_completing ! 0 = Completing 2
   \<and> ID (objs (mem example_completing) 2) = ''1''
   \<and> Status (objs (mem (worker_step PickTimer 15 0 example_completing)) 2) = StatusCompleted
   \<and> StartedAt (objs (mem (worker_step PickTimer 15 0 example_completing)) 2) \<noteq> None
   \<and> Repository_GetTask ''1'' (repo (worker_step PickTimer 15 0 example_completing)) = Inr 2"
proof -
  have r: "run [Create None PickSend example_request 10, Worker 0 PickQueue 11,
               Worker 0 PickQueue 12, Worker 0 PickQueue 13, Worker 0 PickTimer 14]
            (NewTaskService NewTaskRepository example_heap 0) = Some example_completing"
    by (simp add: example_completing_def eval_simps)
  have i: "0 < length (workers example_completing)"
    by (simp add: example_completing_def eval_simps)
  have w: "workers example_completing ! 0 = Completing 2"
    by (simp add: example_completing_def eval_simps)
  have d: "ID (objs (mem example_completing) 2) = ''1''"
    by (simp add: example_completing_def eval_simps)
  have k: "tasks (repo example_completing) ''1'' \<noteq> None"
    by (simp add: example_completing_def eval_simps)
  show ?thesis
    using step4_completes_and_persists_if_stored [OF r i w refl, of PickTimer 15] w d k
    by simp
qed

text \<open>
  C4, as stated, fails: a task deleted during the delay is still run to completion, but
  the update of step 4 finds no entry, and a later \<open>GetTask\<close> reports that the task is
  not found.
\<close>

theorem step4_after_delete_not_persisted:
  "map_option (observe_task ''1'' 2)
     (run [Create None PickSend example_request 10, Worker 0 PickQueue 11,
           Worker 0 PickQueue 12, Worker 0 PickQueue 13, Delete ''1'',
           Worker 0 PickTimer 14, Worker 0 PickTimer 15]
        example_service)
   = Some (StatusCompleted, ''Task completed successfully'',
           Inl (Wrap ErrTaskNotFound ''get task''))"
  by (simp add: observe_task_def eval_simps)

text \<open>
  C8, as amended. Once a stop signal has been delivered, a worker that is at the outer
  select, in the delay, at step 4, or has returned never comes to the inner select again:
  it dequeues no task and begins no step 2, whatever happens afterwards. A worker that has
  received a task and not yet begun step 2 goes on with that task only, and never comes to
  the inner select again either. Only a worker that waits at the inner select when the
  signal arrives can still dequeue a task. A worker that has reached step 4 completes the
  task in its next move, whatever the stop signals and the random choice are.
\<close>

theorem after_stop_only_inner_select_dequeues_and_step4_runs:
  "(stopReady s \<and> i < length (workers s) \<and> no_dequeue_ahead (workers s ! i)
      \<and> run evs s = Some s' \<longrightarrow>
        no_dequeue_ahead (workers s' ! i)
        \<and> workers s' ! i \<noteq> Inner \<and> (\<forall>a. workers s' ! i \<noteq> Dequeued a)
        \<and> stopReady s')
   \<and> (stopReady s \<and> i < length (workers s) \<and> workers s ! i = Dequeued b
      \<and> run evs s = Some s' \<longrightarrow>
        workers s' ! i \<noteq> Inner \<and> (\<forall>a. workers s' ! i = Dequeued a \<longrightarrow> a = b))
   \<and> (j < length (workers t) \<and> workers t ! j = Completing task \<longrightarrow>
        workers (worker_step pk now j t) ! j = Outer
        \<and> Status (objs (mem (worker_step pk now j t)) task) = StatusCompleted
        \<and> Result (objs (mem (worker_step pk now j t)) task) = ''Task completed successfully''
        \<and> CompletedAt (objs (mem (worker_step pk now j t)) task) = Some now)"
proof (intro conjI impI)
  assume a: "stopReady s \<and> i < length (workers s) \<and> no_dequeue_ahead (workers s ! i)
      \<and> run evs s = Some s'"
  then have b: "no_dequeue_ahead (workers s' ! i) \<and> stopReady s'"
    using run_no_dequeue [of evs s s' i] by blast
  from b show "no_dequeue_ahead (workers s' ! i)" by simp
  from b show "workers s' ! i \<noteq> Inner" by auto
  from b show "\<forall>a. workers s' ! i \<noteq> Dequeued a" by auto
  from b show "stopReady s'" by simp
next
  assume a: "stopReady s \<and> i < length (workers s) \<and> workers s ! i = Dequeued b
      \<and> run evs s = Some s'"
  then have b: "workers s' ! i = Dequeued b \<or> no_dequeue_ahead (workers s' ! i)"
    using run_after_dequeue [of evs s s' i b] by blast
  from b show "workers s' ! i \<noteq> Inner" by auto
  from b show "\<forall>a. workers s' ! i = Dequeued a \<longrightarrow> a = b" by auto
next
  assume c: "j < length (workers t) \<and> workers t ! j = Completing task"
  then have eq: "worker_step pk now j t = step4 task now j t"
    by (simp add: worker_step_def)
  show "workers (worker_step pk now j t) ! j = Outer" using c by (simp add: eq)
  show "Status (objs (mem (worker_step pk now j t)) task) = StatusCompleted"
    by (simp add: eq step4_task UpdateStatus_fields)
  show "Result (objs (mem (worker_step pk now j t)) task) = ''Task completed successfully''"
    by (simp add: eq step4_task)
  show "CompletedAt (objs (mem (worker_step pk now j t)) task) = Some now"
    by (simp add: eq step4_task UpdateStatus_CompletedAt Status_defs)
qed


theorem after_stop_only_inner_select_dequeues_and_step4_runs_witness:
  "stopReady example_stopping \<and> workers example_stopping ! 0 = Outer
   \<and> map_option (observe 0 2)
        (run [Create None PickSend example_request 2, Worker 0 PickQueue 3, Worker 0 PickQueue 4]
           example_stopping)
      = Some (True, Stopped, StatusPending)
   \<and> stopReady example_delaying \<and> workers example_delaying ! 0 = Delay 2
   \<and> map_option (observe 0 2)
        (run [Worker 0 PickStop 20, Create None PickSend example_request 21, Worker 0 PickQueue 22]
           example_delaying)
      = Some (True, Stopped, StatusProcessing)
   \<and> stopReady example_dequeued \<and> workers example_dequeued ! 0 = Dequeued 2
   \<and> map_option (observe 0 2)
        (run [Worker 0 PickQueue 4, Worker 0 PickStop 5] example_dequeued)
      = Some (True, Stopped, StatusProcessing)
   \<and> workers example_completing ! 0 = Completing 2
   \<and> workers (worker_step PickStop 15 0 (example_completing\<lparr>shutdownChan := True\<rparr>)) ! 0 = Outer
   \<and> Status (objs (mem (worker_step PickStop 15 0 (example_completing\<lparr>shutdownChan := True\<rparr>))) 2)
        = StatusCompleted"
proof -
  let ?evs = "[Create None PickSend example_request 2, Worker 0 PickQueue 3, Worker 0 PickQueue 4]"
  let ?evd = "[Worker 0 PickStop 20, Create None PickSend example_request 21, Worker 0 PickQueue 22]"
  let ?evq = "[Worker 0 PickQueue 4, Worker 0 PickStop 5]"
  let ?t = "example_completing\<lparr>shutdownChan := True\<rparr>"
  have h1: "stopReady example_stopping" by (simp add: example_stopping_def eval_simps)
  have h2: "0 < length (workers example_stopping)" by (simp add: example_stopping_def eval_simps)
  have h3: "workers example_stopping ! 0 = Outer" by (simp add: example_stopping_def eval_simps)
  have h4: "run ?evs example_stopping = Some (the (run ?evs example_stopping))"
    by (simp add: example_stopping_def eval_simps)
  have o: "map_option (observe 0 2) (run ?evs example_stopping) = Some (True, Stopped, StatusPending)"
    by (simp add: example_stopping_def observe_def eval_simps)
  have d1: "stopReady example_delaying" by (simp add: example_delaying_def eval_simps)
  have d2: "0 < length (workers example_delaying)" by (simp add: example_delaying_def eval_simps)
  have d3: "workers example_delaying ! 0 = Delay 2" by (simp add: example_delaying_def eval_simps)
  have d4: "run ?evd example_delaying = Some (the (run ?evd example_delaying))"
    by (simp add: example_delaying_def eval_simps)
  have od: "map_option (observe 0 2) (run ?evd example_delaying) = Some (True, Stopped, StatusProcessing)"
    by (simp add: example_delaying_def observe_def eval_simps)
  have q1: "stopReady example_dequeued" by (simp add: example_dequeued_def eval_simps)
  have q2: "0 < length (workers example_dequeued)" by (simp add: example_dequeued_def eval_simps)
  have q3: "workers example_dequeued ! 0 = Dequeued 2" by (simp add: example_dequeued_def eval_simps)
  have q4: "run ?evq example_dequeued = Some (the (run ?evq example_dequeued))"
    by (simp add: example_dequeued_def eval_simps)
  have oq: "map_option (observe 0 2) (run ?evq example_dequeued) = Some (True, Stopped, StatusProcessing)"
    by (simp add: example_dequeued_def observe_def eval_simps)
  have g1: "0 < length (workers ?t)" by (simp add: example_completing_def eval_simps)
  have g2: "workers ?t ! 0 = Completing 2" by (simp add: example_completing_def eval_simps)
  have g3: "workers example_completing ! 0 = Completing 2" by (simp add: example_completing_def eval_simps)
  show ?thesis
    using after_stop_only_inner_select_dequeues_and_step4_runs
      [of example_stopping 0 ?evs "the (run ?evs example_stopping)" 2 0 ?t 2 PickStop 15]
      after_stop_only_inner_select_dequeues_and_step4_runs
      [of example_delaying 0 ?evd "the (run ?evd example_delaying)" 2 0 ?t 2 PickStop 15]
      after_stop_only_inner_select_dequeues_and_step4_runs
      [of example_dequeued 0 ?evq "the (run ?evq example_dequeued)" 2 0 ?t 2 PickStop 15]
      h1 h2 h3 h4 o d1 d2 d3 d4 od q1 q2 q3 q4 oq g1 g2 g3
    by simp
qed

text \<open>
  C8, as stated, fails: a task is in the queue, a worker passes the outer select, and
  then \<open>Shutdown\<close> closes the channel. At the inner select both the stop case and the
  queue case can proceed, the choice may fall on the queue, and the worker dequeues the
  task and begins step 2 with the stop signal delivered.
\<close>

theorem worker_at_inner_select_begins_step2_after_stop:
  "map_option (observe 0 2)
     (run [Create None PickSend example_request 1, Worker 0 PickQueue 2, Shutdown]
        example_service)
   = Some (True, Inner, StatusPending)
   \<and> map_option (observe 0 2)
     (run [Create None PickSend example_request 1, Worker 0 PickQueue 2, Shutdown,
           Worker 0 PickQueue 3]
        example_service)
   = Some (True, Dequeued 2, StatusPending)
   \<and> map_option (observe 0 2)
     (run [Create None PickSend example_request 1, Worker 0 PickQueue 2, Shutdown,
           Worker 0 PickQueue 3, Worker 0 PickQueue 4]
        example_service)
   = Some (True, Delay 2, StatusProcessing)"
  by (simp add: observe_def eval_simps)

end
